theory Spec2Isabelle
  imports Main "HOL-Library.Multiset"
begin

section \<open>Node records, pointers and the arena\<close>

text \<open>
  The repository's \<^verbatim>\<open>tree_reference.h\<close> defines the handle class
  \<^verbatim>\<open>TreeReference<T>\<close>.  It includes \<^verbatim>\<open>tree_pool.h\<close>, which declares
  \<^verbatim>\<open>TreePool\<close> and \<^verbatim>\<open>TreeNode\<close>; those two classes are modelled below from
  the specification's description of the Node Record and of the Arena.  The handle
  operations further down follow \<^verbatim>\<open>tree_reference.h\<close> statement by statement.
\<close>

datatype error =
  NullPointer | AssertionFailed | CapacityExhausted | OutOfBounds | IndexOutOfRange
  | NotInArena | InvalidMove

definition andThen :: "error + 'a \<Rightarrow> ('a \<Rightarrow> error + 'b) \<Rightarrow> error + 'b" where
  "andThen m f = (case m of Inl e \<Rightarrow> Inl e | Inr x \<Rightarrow> f x)"

definition assert :: "bool \<Rightarrow> error + unit" where
  "assert b = (if b then Inr () else Inl AssertionFailed)"

text \<open>
  Modelled from the spec: the Node Record (section 3): identifier, retain count, child
  count and byte size, together with what each concrete type supplies (section 6): a
  type tag, whether the type is the failure sentinel, and the identifier of the type's
  canonical failure sentinel.
\<close>

record tree_node =
  nodeIdentifier :: int
  referenceCounter :: int
  numberOfChildren :: int
  nodeSize :: nat
  typeTag :: nat
  isAllocationFailure :: bool
  allocationFailureNodeIdentifier :: int

text \<open>
  A \<^verbatim>\<open>TreeNode *\<close> is a position: the index of a record in the arena (records are
  laid out depth first, so a position is a record boundary), or the index of a
  canonical sentinel, which lives outside the arena.  \<^verbatim>\<open>nullptr\<close> is \<open>None\<close>.
\<close>

datatype node_ptr = Arena nat | Static nat

text \<open>
  Modelled from the spec: the Arena (sections 3 and 4.1): one contiguous buffer of
  records in depth-first pre-order with a fixed capacity in bytes, and the
  process-wide canonical sentinel records.
\<close>

record tree_pool =
  buffer :: "tree_node list"
  staticNodes :: "tree_node list"
  capacity :: nat

definition deref :: "node_ptr option \<Rightarrow> error + node_ptr" where
  "deref p = (case p of None \<Rightarrow> Inl NullPointer | Some q \<Rightarrow> Inr q)"

definition arenaPos :: "node_ptr \<Rightarrow> error + nat" where
  "arenaPos p = (case p of Arena i \<Rightarrow> Inr i | Static k \<Rightarrow> Inl NotInArena)"

definition nodeAt :: "tree_pool \<Rightarrow> node_ptr \<Rightarrow> error + tree_node" where
  "nodeAt s p =
     (case p of
        Arena i \<Rightarrow> if i < length (buffer s) then Inr (buffer s ! i) else Inl OutOfBounds
      | Static k \<Rightarrow>
          if k < length (staticNodes s) then Inr (staticNodes s ! k) else Inl OutOfBounds)"

definition updateAt :: "tree_pool \<Rightarrow> node_ptr \<Rightarrow> (tree_node \<Rightarrow> tree_node) \<Rightarrow> error + tree_pool" where
  "updateAt s p f =
     (case p of
        Arena i \<Rightarrow>
          if i < length (buffer s)
          then Inr (s\<lparr>buffer := (buffer s)[i := f (buffer s ! i)]\<rparr>)
          else Inl OutOfBounds
      | Static k \<Rightarrow>
          if k < length (staticNodes s)
          then Inr (s\<lparr>staticNodes := (staticNodes s)[k := f (staticNodes s ! k)]\<rparr>)
          else Inl OutOfBounds)"

subsection \<open>The implicit tree structure of the depth-first layout\<close>

text \<open>
  Modelled from the spec: "the bytes immediately following a node's header, up to but
  excluding its next sibling, are exactly its full descendant subtree".
  \<open>skipTrees k xs\<close> walks over \<open>k\<close> whole subtrees at the front of \<open>xs\<close> and returns
  what follows them; it is \<open>None\<close> when the buffer ends inside a subtree.
\<close>

fun skipTrees :: "nat \<Rightarrow> tree_node list \<Rightarrow> tree_node list option" where
  "skipTrees 0 xs = Some xs"
| "skipTrees (Suc k) [] = None"
| "skipTrees (Suc k) (x # xs) = skipTrees (k + nat (numberOfChildren x)) xs"

definition subtreeLength :: "tree_node list \<Rightarrow> nat \<Rightarrow> nat option" where
  "subtreeLength buf pos =
     (case skipTrees (Suc 0) (drop pos buf) of
        None \<Rightarrow> None
      | Some rest \<Rightarrow> Some (length buf - pos - length rest))"

text \<open>
  Modelled from the spec: \<^verbatim>\<open>TreeNode::next\<close>, "the next byte after a node's header
  is that node's first child, or, if childless, where its next sibling begins".
\<close>

definition nextNode :: "tree_pool \<Rightarrow> node_ptr \<Rightarrow> error + node_ptr" where
  "nextNode s p =
     andThen (arenaPos p) (\<lambda>i.
       if i < length (buffer s) then Inr (Arena (Suc i)) else Inl OutOfBounds)"

text \<open>Modelled from the spec: \<^verbatim>\<open>TreeNode::nextSibling\<close>, one sibling boundary forward.\<close>

definition nextSibling :: "tree_pool \<Rightarrow> node_ptr \<Rightarrow> error + node_ptr" where
  "nextSibling s p =
     andThen (arenaPos p) (\<lambda>i.
       case subtreeLength (buffer s) i of
         None \<Rightarrow> Inl OutOfBounds
       | Some l \<Rightarrow> Inr (Arena (i + l)))"

fun walkSiblings :: "tree_pool \<Rightarrow> nat \<Rightarrow> node_ptr \<Rightarrow> error + node_ptr" where
  "walkSiblings s 0 p = Inr p"
| "walkSiblings s (Suc k) p = andThen (nextSibling s p) (walkSiblings s k)"

text \<open>
  Modelled from the spec: \<^verbatim>\<open>TreeNode::childTreeAtIndex\<close>, which "fails with
  IndexOutOfRange if index is not in [0, numberOfChildren)".
\<close>

definition childTreeAtIndex :: "tree_pool \<Rightarrow> node_ptr \<Rightarrow> int \<Rightarrow> error + node_ptr" where
  "childTreeAtIndex s p i =
     andThen (nodeAt s p) (\<lambda>n.
       if i < 0 \<or> numberOfChildren n \<le> i then Inl IndexOutOfRange
       else andThen (nextNode s p) (walkSiblings s (nat i)))"

text \<open>
  Modelled from the spec: \<^verbatim>\<open>TreeNode::parentTree\<close>, "an index lookup that walks
  backward through the depth-first layout to find the enclosing node"; \<open>None\<close> when
  the node is a root.
\<close>

definition parentPosition :: "tree_node list \<Rightarrow> nat \<Rightarrow> nat option" where
  "parentPosition buf i =
     find (\<lambda>q. case subtreeLength buf q of Some l \<Rightarrow> i < q + l | None \<Rightarrow> False)
       (rev [0..<i])"

definition parentTree :: "tree_pool \<Rightarrow> node_ptr \<Rightarrow> error + node_ptr option" where
  "parentTree s p =
     andThen (arenaPos p) (\<lambda>i.
       if i < length (buffer s)
       then Inr (map_option Arena (parentPosition (buffer s) i))
       else Inl OutOfBounds)"

text \<open>
  Modelled from the spec: \<^verbatim>\<open>TreeNode::indexInParent\<close>, the node's "index under its
  parent (if any)"; \<open>-1\<close> when there is none.
\<close>

fun indexOfChildWalk :: "tree_node list \<Rightarrow> nat \<Rightarrow> nat \<Rightarrow> nat \<Rightarrow> int" where
  "indexOfChildWalk buf 0 cur target = -1"
| "indexOfChildWalk buf (Suc n) cur target =
     (if cur = target then 0
      else case subtreeLength buf cur of
             None \<Rightarrow> -1
           | Some l \<Rightarrow>
               (let r = indexOfChildWalk buf n (cur + l) target
                in if r < 0 then -1 else r + 1))"

definition indexInParent :: "tree_pool \<Rightarrow> node_ptr \<Rightarrow> error + int" where
  "indexInParent s p =
     andThen (arenaPos p) (\<lambda>i.
       if i < length (buffer s)
       then (case parentPosition (buffer s) i of
               None \<Rightarrow> Inr (-1)
             | Some q \<Rightarrow>
                 Inr (indexOfChildWalk (buffer s) (nat (numberOfChildren (buffer s ! q)))
                        (Suc q) i))
       else Inl OutOfBounds)"

subsection \<open>Node record operations\<close>

text \<open>Modelled from the spec: retain adds one owner.\<close>

definition retain :: "tree_pool \<Rightarrow> node_ptr \<Rightarrow> error + tree_pool" where
  "retain s p = updateAt s p (\<lambda>n. n\<lparr>referenceCounter := referenceCounter n + 1\<rparr>)"

definition setReferenceCounter :: "tree_pool \<Rightarrow> node_ptr \<Rightarrow> int \<Rightarrow> error + tree_pool" where
  "setReferenceCounter s p c = updateAt s p (\<lambda>n. n\<lparr>referenceCounter := c\<rparr>)"

definition rename :: "tree_pool \<Rightarrow> node_ptr \<Rightarrow> int \<Rightarrow> error + tree_pool" where
  "rename s p i = updateAt s p (\<lambda>n. n\<lparr>nodeIdentifier := i\<rparr>)"

definition incrementNumberOfChildren :: "tree_pool \<Rightarrow> node_ptr \<Rightarrow> error + tree_pool" where
  "incrementNumberOfChildren s p =
     updateAt s p (\<lambda>n. n\<lparr>numberOfChildren := numberOfChildren n + 1\<rparr>)"

definition decrementNumberOfChildren :: "tree_pool \<Rightarrow> node_ptr \<Rightarrow> error + tree_pool" where
  "decrementNumberOfChildren s p =
     updateAt s p (\<lambda>n. n\<lparr>numberOfChildren := numberOfChildren n - 1\<rparr>)"

text \<open>
  Modelled from the spec: "recursively release every descendant, then destroy the node
  record, freeing its space"; a node "is destroyed (space reclaimed, descendants
  recursively destroyed first) when its retain count reaches zero after a release";
  "retain count must never go negative (fatal invariant violation if it would)".

  \<open>releaseScan keep rel xs\<close> is one pass over the records that follow a destroyed
  header: the next \<open>keep\<close> subtrees belong to a surviving node and are left as they
  are, then \<open>rel\<close> subtrees are released: each root loses one retain, and a root that
  reaches zero is removed and its own children are released in turn.
\<close>

fun releaseScan :: "nat \<Rightarrow> nat \<Rightarrow> tree_node list \<Rightarrow> error + tree_node list" where
  "releaseScan keep rel [] = (if keep = 0 \<and> rel = 0 then Inr [] else Inl OutOfBounds)"
| "releaseScan keep rel (x # xs) =
     (if 0 < keep then
        andThen (releaseScan (keep - 1 + nat (numberOfChildren x)) rel xs) (\<lambda>ys. Inr (x # ys))
      else if 0 < rel then
        (if referenceCounter x \<le> 0 then Inl AssertionFailed
         else if referenceCounter x - 1 = 0 then
           releaseScan 0 (rel - 1 + nat (numberOfChildren x)) xs
         else
           andThen (releaseScan (nat (numberOfChildren x)) (rel - 1) xs)
             (\<lambda>ys. Inr (x\<lparr>referenceCounter := referenceCounter x - 1\<rparr> # ys)))
      else Inr (x # xs))"

definition releaseChildrenAndDestroy :: "tree_pool \<Rightarrow> node_ptr \<Rightarrow> error + tree_pool" where
  "releaseChildrenAndDestroy s p =
     andThen (arenaPos p) (\<lambda>i.
       if i < length (buffer s) then
         andThen (releaseScan 0 (nat (numberOfChildren (buffer s ! i))) (drop (Suc i) (buffer s)))
           (\<lambda>rest. Inr (s\<lparr>buffer := take i (buffer s) @ rest\<rparr>))
       else Inl OutOfBounds)"

definition release :: "tree_pool \<Rightarrow> node_ptr \<Rightarrow> error + tree_pool" where
  "release s p =
     andThen (nodeAt s p) (\<lambda>n.
       if referenceCounter n \<le> 0 then Inl AssertionFailed
       else
         andThen (updateAt s p (\<lambda>m. m\<lparr>referenceCounter := referenceCounter m - 1\<rparr>)) (\<lambda>s'.
           if referenceCounter n - 1 = 0 then releaseChildrenAndDestroy s' p else Inr s'))"

subsection \<open>Arena operations\<close>

text \<open>
  Modelled from the spec: \<^verbatim>\<open>TreePool::node\<close>, the identifier-to-record lookup;
  \<open>None\<close> when no record carries the identifier.
\<close>

fun indexOfIdentifier :: "int \<Rightarrow> tree_node list \<Rightarrow> nat option" where
  "indexOfIdentifier i [] = None"
| "indexOfIdentifier i (x # xs) =
     (if nodeIdentifier x = i then Some 0 else map_option Suc (indexOfIdentifier i xs))"

definition poolNode :: "tree_pool \<Rightarrow> int \<Rightarrow> node_ptr option" where
  "poolNode s i =
     (case indexOfIdentifier i (buffer s) of
        Some k \<Rightarrow> Some (Arena k)
      | None \<Rightarrow> map_option Static (indexOfIdentifier i (staticNodes s)))"

text \<open>Modelled from the spec: \<^verbatim>\<open>TreePool::last\<close>, the logical end of the used buffer.\<close>

definition poolLast :: "tree_pool \<Rightarrow> node_ptr" where
  "poolLast s = Arena (length (buffer s))"

text \<open>
  Modelled from the spec: \<^verbatim>\<open>TreePool::move\<close> "relocates the full contiguous byte
  span belonging to the node (header + entire subtree) to immediately precede
  destination, preserving internal byte order and every descendant's identifier and
  retain count".  A destination strictly inside the moved span has no meaning.
\<close>

definition moveRecords :: "nat \<Rightarrow> nat \<Rightarrow> nat \<Rightarrow> 'a list \<Rightarrow> 'a list" where
  "moveRecords src len dst xs =
     (if dst < src then
        take dst xs @ take len (drop src xs) @ drop dst (take src xs) @ drop (src + len) xs
      else if src + len \<le> dst then
        take src xs @ drop (src + len) (take dst xs) @ take len (drop src xs) @ drop dst xs
      else xs)"

definition move :: "tree_pool \<Rightarrow> node_ptr \<Rightarrow> node_ptr \<Rightarrow> error + tree_pool" where
  "move s source destination =
     andThen (arenaPos source) (\<lambda>i.
     andThen (arenaPos destination) (\<lambda>j.
       case subtreeLength (buffer s) i of
         None \<Rightarrow> Inl OutOfBounds
       | Some l \<Rightarrow>
           if length (buffer s) < j then Inl OutOfBounds
           else if i < j \<and> j < i + l then Inl InvalidMove
           else Inr (s\<lparr>buffer := moveRecords i l j (buffer s)\<rparr>)))"

text \<open>
  Modelled from the spec: identifiers are non-negative and "unique among
  currently-live nodes"; a fresh one is taken above every identifier in use.
\<close>

definition freshIdentifier :: "tree_pool \<Rightarrow> int" where
  "freshIdentifier s = fold max (map nodeIdentifier (buffer s @ staticNodes s)) (-1) + 1"

definition usedBytes :: "tree_pool \<Rightarrow> nat" where
  "usedBytes s = sum_list (map nodeSize (buffer s))"

fun renameFrom :: "int \<Rightarrow> tree_node list \<Rightarrow> tree_node list" where
  "renameFrom f [] = []"
| "renameFrom f (x # xs) = x\<lparr>nodeIdentifier := f\<rparr> # renameFrom (f + 1) xs"

text \<open>
  Modelled from the spec: \<^verbatim>\<open>TreePool::deepCopy\<close> "duplicates a subtree into newly
  allocated space with fresh identifiers for every copied node (fails with
  CapacityExhausted under the same condition as allocate)".
\<close>

definition allocCopy :: "tree_pool \<Rightarrow> tree_node list \<Rightarrow> error + (tree_pool \<times> node_ptr)" where
  "allocCopy s sub =
     (if capacity s < usedBytes s + sum_list (map nodeSize sub) then Inl CapacityExhausted
      else Inr (s\<lparr>buffer := buffer s @ renameFrom (freshIdentifier s) sub\<rparr>,
                Arena (length (buffer s))))"

definition deepCopy :: "tree_pool \<Rightarrow> node_ptr \<Rightarrow> error + (tree_pool \<times> node_ptr)" where
  "deepCopy s p =
     (case p of
        Arena i \<Rightarrow>
          (case subtreeLength (buffer s) i of
             None \<Rightarrow> Inl OutOfBounds
           | Some l \<Rightarrow> allocCopy s (take l (drop i (buffer s))))
      | Static k \<Rightarrow>
          if k < length (staticNodes s) then allocCopy s [staticNodes s ! k]
          else Inl OutOfBounds)"

text \<open>
  Modelled from the spec: \<^verbatim>\<open>TreePool::createTreeNode<T>\<close>, "allocate<Type>() (fails
  with CapacityExhausted if insufficient contiguous trailing space)".  The type
  \<open>T\<close> is given by a prototype record: its byte size, type tag and sentinel.  The
  new node has a fresh identifier, no child, and the one retain of the handle that
  wraps it.
\<close>

definition createTreeNode :: "tree_pool \<Rightarrow> tree_node \<Rightarrow> error + (tree_pool \<times> node_ptr)" where
  "createTreeNode s proto =
     (if capacity s < usedBytes s + nodeSize proto then Inl CapacityExhausted
      else Inr (s\<lparr>buffer := buffer s @
                   [proto\<lparr>nodeIdentifier := freshIdentifier s, referenceCounter := 1,
                          numberOfChildren := 0\<rparr>]\<rparr>,
                Arena (length (buffer s))))"

text \<open>
  Modelled from the spec: \<^verbatim>\<open>failedAllocationStaticNode\<close>, the "canonical
  failure-sentinel prototype" of the node's type.
\<close>

definition failedAllocationStaticNode :: "tree_pool \<Rightarrow> tree_node \<Rightarrow> node_ptr option" where
  "failedAllocationStaticNode s n =
     map_option Static (indexOfIdentifier (allocationFailureNodeIdentifier n) (staticNodes s))"

section \<open>The handle: \<^verbatim>\<open>TreeReference\<close>\<close>

text \<open>
  A handle holds one field, \<^verbatim>\<open>m_identifier\<close>; the arena is the shared pool, passed
  explicitly.  Each operation returns the pool it leaves (and the handle it builds),
  or the error at which the C++ stops: a failed \<^verbatim>\<open>assert\<close>, or a dereference that
  has no defined behaviour.
\<close>

type_synonym handle = int

definition node :: "tree_pool \<Rightarrow> handle \<Rightarrow> node_ptr option" where
  "node s h = poolNode s h"

definition setIdentifierAndRetain :: "tree_pool \<Rightarrow> int \<Rightarrow> error + (tree_pool \<times> handle)" where
  "setIdentifierAndRetain s newId =
     andThen (deref (node s newId)) (\<lambda>p.
     andThen (retain s p) (\<lambda>s'. Inr (s', newId)))"

definition setTo :: "tree_pool \<Rightarrow> handle \<Rightarrow> error + (tree_pool \<times> handle)" where
  "setTo s tr = setIdentifierAndRetain s tr"

text \<open>
  The four special members all call \<^verbatim>\<open>setTo(tr)\<close>.  The constructors return the new
  handle; the assignments return the new value of \<^verbatim>\<open>*this\<close>, whose previous
  identifier \<open>this\<close> is overwritten.  The argument \<open>tr\<close> is left as it is.
\<close>

definition copyConstruct :: "tree_pool \<Rightarrow> handle \<Rightarrow> error + (tree_pool \<times> handle)" where
  "copyConstruct s tr = setTo s tr"

definition moveConstruct :: "tree_pool \<Rightarrow> handle \<Rightarrow> error + (tree_pool \<times> handle)" where
  "moveConstruct s tr = setTo s tr"

definition copyAssign :: "tree_pool \<Rightarrow> handle \<Rightarrow> handle \<Rightarrow> error + (tree_pool \<times> handle)" where
  "copyAssign s this tr = setTo s tr"

definition moveAssign :: "tree_pool \<Rightarrow> handle \<Rightarrow> handle \<Rightarrow> error + (tree_pool \<times> handle)" where
  "moveAssign s this tr = setTo s tr"

text \<open>The protected constructor \<^verbatim>\<open>TreeReference(TreeNode * node)\<close>.\<close>

definition fromNode :: "tree_pool \<Rightarrow> node_ptr option \<Rightarrow> error + (tree_pool \<times> handle)" where
  "fromNode s p =
     (case p of
        None \<Rightarrow> Inr (s, -1)
      | Some q \<Rightarrow> andThen (nodeAt s q) (\<lambda>n. setIdentifierAndRetain s (nodeIdentifier n)))"

text \<open>The protected default constructor; \<open>proto\<close> stands for the static type \<open>T\<close>.\<close>

definition defaultConstruct :: "tree_pool \<Rightarrow> tree_node \<Rightarrow> error + (tree_pool \<times> handle)" where
  "defaultConstruct s proto =
     andThen (createTreeNode s proto) (\<lambda>(s', p).
     andThen (nodeAt s' p) (\<lambda>n. Inr (s', nodeIdentifier n)))"

text \<open>The destructor.\<close>

definition destroy :: "tree_pool \<Rightarrow> handle \<Rightarrow> error + tree_pool" where
  "destroy s h =
     (if 0 \<le> h then
        andThen (assert (node s h \<noteq> None)) (\<lambda>_.
        andThen (deref (node s h)) (\<lambda>p.
        andThen (nodeAt s p) (\<lambda>n.
        andThen (assert (nodeIdentifier n = h)) (\<lambda>_.
        release s p))))
      else Inr s)"

definition isDefined :: "tree_pool \<Rightarrow> handle \<Rightarrow> bool" where
  "isDefined s h = (0 \<le> h \<and> node s h \<noteq> None)"

definition refIsAllocationFailure :: "tree_pool \<Rightarrow> handle \<Rightarrow> error + bool" where
  "refIsAllocationFailure s h =
     andThen (deref (node s h)) (\<lambda>p.
     andThen (nodeAt s p) (\<lambda>n. Inr (isAllocationFailure n)))"

definition nodeRetainCount :: "tree_pool \<Rightarrow> handle \<Rightarrow> error + int" where
  "nodeRetainCount s h =
     andThen (deref (node s h)) (\<lambda>p.
     andThen (nodeAt s p) (\<lambda>n. Inr (referenceCounter n)))"

definition refNumberOfChildren :: "tree_pool \<Rightarrow> handle \<Rightarrow> error + int" where
  "refNumberOfChildren s h =
     andThen (deref (node s h)) (\<lambda>p.
     andThen (nodeAt s p) (\<lambda>n. Inr (numberOfChildren n)))"

definition refIncrementNumberOfChildren :: "tree_pool \<Rightarrow> handle \<Rightarrow> error + tree_pool" where
  "refIncrementNumberOfChildren s h =
     andThen (deref (node s h)) (incrementNumberOfChildren s)"

definition refDecrementNumberOfChildren :: "tree_pool \<Rightarrow> handle \<Rightarrow> error + tree_pool" where
  "refDecrementNumberOfChildren s h =
     andThen (deref (node s h)) (decrementNumberOfChildren s)"

definition clone :: "tree_pool \<Rightarrow> handle \<Rightarrow> error + (tree_pool \<times> handle)" where
  "clone s h =
     andThen (deref (node s h)) (\<lambda>myNode.
     andThen (nodeAt s myNode) (\<lambda>n.
       if isAllocationFailure n then
         (let allocationFailureNodeId = allocationFailureNodeIdentifier n
          in fromNode s (poolNode s allocationFailureNodeId))
       else
         andThen (deepCopy s myNode) (\<lambda>(s', nodeCopy). fromNode s' (Some nodeCopy))))"

definition parent :: "tree_pool \<Rightarrow> handle \<Rightarrow> error + (tree_pool \<times> handle)" where
  "parent s h =
     andThen (deref (node s h)) (\<lambda>p.
     andThen (parentTree s p) (\<lambda>q. fromNode s q))"

definition treeChildAtIndex :: "tree_pool \<Rightarrow> handle \<Rightarrow> int \<Rightarrow> error + (tree_pool \<times> handle)" where
  "treeChildAtIndex s h i =
     andThen (deref (node s h)) (\<lambda>p.
     andThen (childTreeAtIndex s p i) (\<lambda>c. fromNode s (Some c)))"

subsection \<open>Hierarchy operations\<close>

definition addChildAtIndex :: "tree_pool \<Rightarrow> handle \<Rightarrow> handle \<Rightarrow> int \<Rightarrow> error + tree_pool" where
  "addChildAtIndex s self t index =
     andThen (deref (node s self)) (\<lambda>p.
     andThen (nodeAt s p) (\<lambda>n.
       if isAllocationFailure n then Inr s
       else
         andThen (assert (0 \<le> index \<and> index \<le> numberOfChildren n)) (\<lambda>_.
         andThen (deref (node s t)) (\<lambda>tp.
         andThen (retain s tp) (\<lambda>s1.
         andThen (deref (node s1 self)) (\<lambda>p1.
         andThen (nextNode s1 p1) (\<lambda>firstChild.
         andThen (walkSiblings s1 (nat index) firstChild) (\<lambda>newChildPosition.
         andThen (deref (node s1 t)) (\<lambda>tp1.
         andThen (move s1 tp1 newChildPosition) (\<lambda>s2.
         andThen (deref (node s2 self)) (\<lambda>p2.
         incrementNumberOfChildren s2 p2)))))))))))"

definition removeChild :: "tree_pool \<Rightarrow> handle \<Rightarrow> handle \<Rightarrow> error + tree_pool" where
  "removeChild s self t =
     andThen (deref (node s t)) (\<lambda>tp.
     andThen (move s tp (poolLast s)) (\<lambda>s1.
     andThen (deref (node s1 t)) (\<lambda>tp1.
     andThen (release s1 tp1) (\<lambda>s2.
     andThen (deref (node s2 self)) (\<lambda>p.
     decrementNumberOfChildren s2 p)))))"

text \<open>
  \<^verbatim>\<open>replaceWithAllocationFailure\<close>.  The local handle \<open>p\<close> is released when the
  function returns; the \<^verbatim>\<open>TreeNode *\<close> passed to \<^verbatim>\<open>addChildAtIndex\<close> is converted
  to a temporary handle, which retains the sentinel before the call and releases it
  after.
\<close>

definition replaceWithAllocationFailure :: "tree_pool \<Rightarrow> handle \<Rightarrow> error + tree_pool" where
  "replaceWithAllocationFailure s self =
     andThen (parent s self) (\<lambda>(s1, p).
     andThen (deref (node s1 self)) (\<lambda>n1.
     andThen (indexInParent s1 n1) (\<lambda>indexInParentNode.
     andThen (nodeAt s1 n1) (\<lambda>r.
     let currentRetainCount = referenceCounter r in
     andThen (deref (failedAllocationStaticNode s1 r)) (\<lambda>staticAllocFailNode.
     andThen (move s1 n1 (poolLast s1)) (\<lambda>s2.
     andThen (if isDefined s2 p then refDecrementNumberOfChildren s2 p else Inr s2) (\<lambda>s3.
     andThen (deref (node s3 self)) (\<lambda>n3.
     andThen (releaseChildrenAndDestroy s3 n3) (\<lambda>s4.
     andThen (deepCopy s4 staticAllocFailNode) (\<lambda>(s5, newAllocationFailureNode).
     andThen (rename s5 newAllocationFailureNode self) (\<lambda>s6.
       if isDefined s6 p then
         andThen (assert (0 \<le> indexInParentNode)) (\<lambda>_.
         andThen (setReferenceCounter s6 newAllocationFailureNode (currentRetainCount - 1)) (\<lambda>s7.
         andThen (fromNode s7 (Some newAllocationFailureNode)) (\<lambda>(s8, t).
         andThen (addChildAtIndex s8 p t indexInParentNode) (\<lambda>s9.
         andThen (destroy s9 t) (\<lambda>s10.
         destroy s10 p)))))
       else
         andThen (setReferenceCounter s6 newAllocationFailureNode currentRetainCount) (\<lambda>s7.
         destroy s7 p))))))))))))"

text \<open>
  \<^verbatim>\<open>replaceChildAtIndex\<close>.  The local handles \<open>oldChild\<close> and \<open>p\<close> are released, in
  that order, when the function returns.
\<close>

definition replaceChildAtIndex :: "tree_pool \<Rightarrow> handle \<Rightarrow> int \<Rightarrow> handle \<Rightarrow> error + tree_pool" where
  "replaceChildAtIndex s self oldChildIndex newChild =
     andThen (refIsAllocationFailure s newChild) (\<lambda>failed.
       if failed then replaceWithAllocationFailure s self
       else
         andThen (parent s newChild) (\<lambda>(s1, p).
         andThen (if isDefined s1 p then refDecrementNumberOfChildren s1 p else Inr s1) (\<lambda>s2.
         andThen (refNumberOfChildren s2 self) (\<lambda>c.
         andThen (assert (0 \<le> oldChildIndex \<and> oldChildIndex < c)) (\<lambda>_.
         andThen (treeChildAtIndex s2 self oldChildIndex) (\<lambda>(s3, oldChild).
         andThen (deref (node s3 newChild)) (\<lambda>newNode.
         andThen (deref (node s3 oldChild)) (\<lambda>oldNode.
         andThen (nextNode s3 oldNode) (\<lambda>destination.
         andThen (move s3 newNode destination) (\<lambda>s4.
         andThen (deref (node s4 newChild)) (\<lambda>newNode'.
         andThen (retain s4 newNode') (\<lambda>s5.
         andThen (deref (node s5 oldChild)) (\<lambda>oldNode'.
         andThen (move s5 oldNode' (poolLast s5)) (\<lambda>s6.
         andThen (deref (node s6 oldChild)) (\<lambda>oldNode''.
         andThen (release s6 oldNode'') (\<lambda>s7.
         andThen (destroy s7 oldChild) (\<lambda>s8.
         destroy s8 p)))))))))))))))))"

text \<open>
  \<^verbatim>\<open>swapChildren\<close>.  \<open>firstChildNode\<close> is a raw pointer taken before the first
  move and used again, unchanged, as the destination of the second.
\<close>

definition swapChildren :: "tree_pool \<Rightarrow> handle \<Rightarrow> int \<Rightarrow> int \<Rightarrow> error + tree_pool" where
  "swapChildren s self i j =
     andThen (refNumberOfChildren s self) (\<lambda>c.
     andThen (assert (0 \<le> i \<and> i < c)) (\<lambda>_.
     andThen (assert (0 \<le> j \<and> j < c)) (\<lambda>_.
       if i = j then Inr s
       else
         (let firstChildIndex = min i j; secondChildIndex = max i j in
          andThen (treeChildAtIndex s self firstChildIndex) (\<lambda>(s1, firstChild).
          andThen (treeChildAtIndex s1 self secondChildIndex) (\<lambda>(s2, secondChild).
          andThen (deref (node s2 firstChild)) (\<lambda>firstChildNode.
          andThen (deref (node s2 secondChild)) (\<lambda>secondNode.
          andThen (nextNode s2 secondNode) (\<lambda>destination.
          andThen (move s2 firstChildNode destination) (\<lambda>s3.
          andThen (deref (node s3 secondChild)) (\<lambda>secondNode'.
          andThen (move s3 secondNode' firstChildNode) (\<lambda>s4.
          andThen (destroy s4 secondChild) (\<lambda>s5.
          destroy s5 firstChild)))))))))))))"

section \<open>Reading results; sample pools\<close>

definition poolOf :: "error + (tree_pool \<times> handle) \<Rightarrow> error + tree_pool" where
  "poolOf r = andThen r (\<lambda>(s, h). Inr s)"

definition handleOf :: "error + (tree_pool \<times> handle) \<Rightarrow> error + handle" where
  "handleOf r = andThen r (\<lambda>(s, h). Inr h)"

definition retainCountIn :: "error + tree_pool \<Rightarrow> handle \<Rightarrow> error + int" where
  "retainCountIn r h = andThen r (\<lambda>s. nodeRetainCount s h)"

definition failureIn :: "error + tree_pool \<Rightarrow> handle \<Rightarrow> error + bool" where
  "failureIn r h = andThen r (\<lambda>s. refIsAllocationFailure s h)"



definition layoutOf :: "error + tree_pool \<Rightarrow> error + (int \<times> int \<times> int) list" where
  "layoutOf r =
     andThen r (\<lambda>s.
       Inr (map (\<lambda>n. (nodeIdentifier n, numberOfChildren n, referenceCounter n)) (buffer s)))"

text \<open>
  Sample records: an ordinary node type of 8 bytes and its 4-byte canonical sentinel,
  which carries identifier 100.
\<close>

definition plainNode :: "int \<Rightarrow> int \<Rightarrow> int \<Rightarrow> tree_node" where
  "plainNode i children retains =
     \<lparr>nodeIdentifier = i, referenceCounter = retains, numberOfChildren = children,
      nodeSize = 8, typeTag = 1, isAllocationFailure = False,
      allocationFailureNodeIdentifier = 100\<rparr>"

definition sentinelNode :: "int \<Rightarrow> int \<Rightarrow> tree_node" where
  "sentinelNode i retains =
     \<lparr>nodeIdentifier = i, referenceCounter = retains, numberOfChildren = 0,
      nodeSize = 4, typeTag = 0, isAllocationFailure = True,
      allocationFailureNodeIdentifier = 100\<rparr>"

definition poolWith :: "tree_node list \<Rightarrow> tree_pool" where
  "poolWith xs = \<lparr>buffer = xs, staticNodes = [sentinelNode 100 1], capacity = 64\<rparr>"

definition definedIn :: "error + (tree_pool \<times> handle) \<Rightarrow> bool" where
  "definedIn r = (case r of Inl e \<Rightarrow> False | Inr (s, h) \<Rightarrow> isDefined s h)"

definition swapChildrenTwice :: "tree_pool \<Rightarrow> handle \<Rightarrow> int \<Rightarrow> int \<Rightarrow> error + tree_pool" where
  "swapChildrenTwice s self i j =
     andThen (swapChildren s self i j) (\<lambda>s'. swapChildren s' self i j)"

text \<open>What a deep copy must preserve of a record: everything but identity and owners.\<close>

definition nodeShape :: "tree_node \<Rightarrow> nat \<times> int \<times> nat \<times> bool" where
  "nodeShape n = (typeTag n, numberOfChildren n, nodeSize n, isAllocationFailure n)"

text \<open>The arena record that an identifier resolves to, if any.\<close>

definition recordOf :: "tree_pool \<Rightarrow> int \<Rightarrow> tree_node option" where
  "recordOf s i = map_option (\<lambda>k. buffer s ! k) (indexOfIdentifier i (buffer s))"

text \<open>
  The records of a pool are live when identifiers are non-negative and unique, every
  record has at least one owner, a failure sentinel has no child, and every canonical
  sentinel is a failure sentinel (sections 3 and 5 of the specification).
\<close>

definition liveRecords :: "tree_pool \<Rightarrow> bool" where
  "liveRecords s \<longleftrightarrow>
     distinct (map nodeIdentifier (buffer s)) \<and>
     (\<forall>n\<in>set (buffer s). 0 \<le> nodeIdentifier n \<and> 0 < referenceCounter n \<and>
        (isAllocationFailure n \<longrightarrow> numberOfChildren n = 0)) \<and>
     (\<forall>z\<in>set (staticNodes s). isAllocationFailure z)"

text \<open>
  The statements of \<^verbatim>\<open>replaceWithAllocationFailure\<close> before the last, taken on their
  own: everything up to and including the \<^verbatim>\<open>rename\<close> of the copied sentinel to
  \<^verbatim>\<open>m_identifier\<close>.  The result is the pool at that point together with the locals
  that the last statement reads: the handle \<open>p\<close>, the pointer
  \<open>newAllocationFailureNode\<close>, \<open>indexInParentNode\<close> and \<open>currentRetainCount\<close>.
\<close>

definition substituteSentinel ::
    "tree_pool \<Rightarrow> handle \<Rightarrow> error + (tree_pool \<times> handle \<times> node_ptr \<times> int \<times> int)" where
  "substituteSentinel s self =
     andThen (parent s self) (\<lambda>(s1, p).
     andThen (deref (node s1 self)) (\<lambda>n1.
     andThen (indexInParent s1 n1) (\<lambda>indexInParentNode.
     andThen (nodeAt s1 n1) (\<lambda>r.
     let currentRetainCount = referenceCounter r in
     andThen (deref (failedAllocationStaticNode s1 r)) (\<lambda>staticAllocFailNode.
     andThen (move s1 n1 (poolLast s1)) (\<lambda>s2.
     andThen (if isDefined s2 p then refDecrementNumberOfChildren s2 p else Inr s2) (\<lambda>s3.
     andThen (deref (node s3 self)) (\<lambda>n3.
     andThen (releaseChildrenAndDestroy s3 n3) (\<lambda>s4.
     andThen (deepCopy s4 staticAllocFailNode) (\<lambda>(s5, newAllocationFailureNode).
     andThen (rename s5 newAllocationFailureNode self) (\<lambda>s6.
       Inr (s6, p, newAllocationFailureNode, indexInParentNode, currentRetainCount))))))))))))"

text \<open>
  The last statement of \<^verbatim>\<open>replaceWithAllocationFailure\<close>, taken on its own: the
  \<^verbatim>\<open>if (p.isDefined())\<close> that restores the retain count of the sentinel and
  reattaches it, followed by the release of the local handle \<open>p\<close>.
\<close>

definition restoreRetainCount ::
    "tree_pool \<Rightarrow> handle \<Rightarrow> node_ptr \<Rightarrow> int \<Rightarrow> int \<Rightarrow> error + tree_pool" where
  "restoreRetainCount s6 p newAllocationFailureNode indexInParentNode currentRetainCount =
     (if isDefined s6 p then
        andThen (assert (0 \<le> indexInParentNode)) (\<lambda>_.
        andThen (setReferenceCounter s6 newAllocationFailureNode (currentRetainCount - 1)) (\<lambda>s7.
        andThen (fromNode s7 (Some newAllocationFailureNode)) (\<lambda>(s8, t).
        andThen (addChildAtIndex s8 p t indexInParentNode) (\<lambda>s9.
        andThen (destroy s9 t) (\<lambda>s10.
        destroy s10 p)))))
      else
        andThen (setReferenceCounter s6 newAllocationFailureNode currentRetainCount) (\<lambda>s7.
        destroy s7 p))"

text \<open>
  A buffer is well nested when it is a sequence of complete trees: walking over some
  number of whole subtrees ends exactly at the end of the used region (section 3:
  "depth-first contiguity always holds after every completed operation").
\<close>

definition wellNested :: "tree_node list \<Rightarrow> bool" where
  "wellNested buf \<longleftrightarrow> (\<exists>k\<in>set [0..<Suc (length buf)]. skipTrees k buf = Some [])"

text \<open>
  Every record's type has its canonical sentinel among the static nodes, no larger than
  the record itself ("the sentinel's byte size is guaranteed to be at most the size of
  any real node type"), and a canonical sentinel has no child.
\<close>

definition sentinelsRegistered :: "tree_pool \<Rightarrow> bool" where
  "sentinelsRegistered s \<longleftrightarrow>
     (\<forall>n\<in>set (buffer s).
        allocationFailureNodeIdentifier n \<in> nodeIdentifier ` set (staticNodes s) \<and>
        (\<forall>z\<in>set (staticNodes s).
           nodeIdentifier z = allocationFailureNodeIdentifier n \<longrightarrow> nodeSize z \<le> nodeSize n)) \<and>
     (\<forall>z\<in>set (staticNodes s). numberOfChildren z = 0)"

definition wellFormedPool :: "tree_pool \<Rightarrow> bool" where
  "wellFormedPool s \<longleftrightarrow>
     liveRecords s \<and> wellNested (buffer s) \<and> sentinelsRegistered s \<and>
     usedBytes s \<le> capacity s"

section \<open>Basic facts\<close>

lemma andThen_Inl [simp]: "andThen (Inl e) f = Inl e"
  by (simp add: andThen_def)

lemma andThen_Inr [simp]: "andThen (Inr x) f = f x"
  by (simp add: andThen_def)

lemma andThen_eq_Inr: "andThen m f = Inr y \<longleftrightarrow> (\<exists>x. m = Inr x \<and> f x = Inr y)"
  by (cases m) simp_all

lemma deref_simps [simp]: "deref None = Inl NullPointer" "deref (Some q) = Inr q"
  by (simp_all add: deref_def)

lemma assert_simps [simp]: "assert True = Inr ()" "assert False = Inl AssertionFailed"
  by (simp_all add: assert_def)

lemma indexOfIdentifier_Some:
  "indexOfIdentifier i xs = Some k \<Longrightarrow> k < length xs \<and> nodeIdentifier (xs ! k) = i"
proof (induction xs arbitrary: k)
  case Nil
  then show ?case by simp
next
  case (Cons x xs)
  then show ?case by (cases k) (auto split: if_splits)
qed

lemma indexOfIdentifier_map:
  "map nodeIdentifier xs = map nodeIdentifier ys \<Longrightarrow>
   indexOfIdentifier i xs = indexOfIdentifier i ys"
proof (induction xs arbitrary: ys)
  case Nil
  then show ?case by simp
next
  case (Cons x xs)
  then show ?case by (cases ys) auto
qed

lemma indexOfIdentifier_None_iff:
  "indexOfIdentifier i xs = None \<longleftrightarrow> i \<notin> nodeIdentifier ` set xs"
  by (induction xs) auto

lemma poolNode_cong:
  assumes "map nodeIdentifier (buffer s') = map nodeIdentifier (buffer s)"
    and "map nodeIdentifier (staticNodes s') = map nodeIdentifier (staticNodes s)"
  shows "poolNode s' i = poolNode s i"
proof -
  have a: "indexOfIdentifier i (buffer s') = indexOfIdentifier i (buffer s)"
    by (rule indexOfIdentifier_map [OF assms(1)])
  have b: "indexOfIdentifier i (staticNodes s') = indexOfIdentifier i (staticNodes s)"
    by (rule indexOfIdentifier_map [OF assms(2)])
  show ?thesis unfolding poolNode_def a b ..
qed

lemma poolNode_nodeAt:
  assumes "poolNode s i = Some p"
  shows "\<exists>n. nodeAt s p = Inr n \<and> nodeIdentifier n = i"
  using assms
  by (auto simp: poolNode_def nodeAt_def split: option.splits dest: indexOfIdentifier_Some)

lemma map_nodeIdentifier_update:
  "nodeIdentifier (f (xs ! k)) = nodeIdentifier (xs ! k) \<Longrightarrow>
   map nodeIdentifier (xs[k := f (xs ! k)]) = map nodeIdentifier xs"
  by (simp add: map_update) (metis list_update_id map_update)

lemma updateAt_poolNode:
  assumes "updateAt s p f = Inr s'" and "\<And>n. nodeIdentifier (f n) = nodeIdentifier n"
  shows "poolNode s' i = poolNode s i"
proof (rule poolNode_cong)
  show "map nodeIdentifier (buffer s') = map nodeIdentifier (buffer s)"
    using assms by (cases p) (auto simp: updateAt_def map_nodeIdentifier_update split: if_splits)
  show "map nodeIdentifier (staticNodes s') = map nodeIdentifier (staticNodes s)"
    using assms by (cases p) (auto simp: updateAt_def map_nodeIdentifier_update split: if_splits)
qed

lemma updateAt_nodeAt_same:
  assumes "nodeAt s p = Inr n"
  shows "\<exists>s'. updateAt s p f = Inr s' \<and> nodeAt s' p = Inr (f n)"
  using assms by (cases p) (auto simp: updateAt_def nodeAt_def split: if_splits)

lemma updateAt_nodeAt_other:
  assumes "updateAt s p f = Inr s'" and "q \<noteq> p"
  shows "nodeAt s' q = nodeAt s q"
  using assms by (cases p; cases q) (auto simp: updateAt_def nodeAt_def split: if_splits)

lemma nodeRetainCount_eq:
  "nodeRetainCount s h = Inr c \<longleftrightarrow>
   (\<exists>p n. node s h = Some p \<and> nodeAt s p = Inr n \<and> referenceCounter n = c)"
  by (cases "node s h") (auto simp: nodeRetainCount_def andThen_eq_Inr)

lemma setTo_retains:
  assumes "nodeRetainCount s b = Inr cb"
  shows "\<exists>s'. setTo s b = Inr (s', b) \<and> nodeRetainCount s' b = Inr (cb + 1) \<and>
           (\<forall>a c. a \<noteq> b \<longrightarrow> nodeRetainCount s a = Inr c \<longrightarrow> nodeRetainCount s' a = Inr c)"
proof -
  from assms obtain p n where p: "node s b = Some p" and n: "nodeAt s p = Inr n"
    and c: "referenceCounter n = cb"
    by (auto simp: nodeRetainCount_eq)
  let ?f = "\<lambda>n. n\<lparr>referenceCounter := referenceCounter n + 1\<rparr>"
  from updateAt_nodeAt_same [OF n, of ?f] obtain s' where
    u: "updateAt s p ?f = Inr s'" and n': "nodeAt s' p = Inr (?f n)"
    by blast
  have same: "\<And>i. poolNode s' i = poolNode s i"
    by (rule updateAt_poolNode [OF u]) simp
  have "setTo s b = Inr (s', b)"
    using p u by (simp add: setTo_def setIdentifierAndRetain_def retain_def)
  moreover have "nodeRetainCount s' b = Inr (cb + 1)"
    using p n' c same by (simp add: nodeRetainCount_def node_def)
  moreover have "nodeRetainCount s' a = Inr c'"
    if "a \<noteq> b" "nodeRetainCount s a = Inr c'" for a c'
  proof -
    from that(2) obtain q m where q: "node s a = Some q" and m: "nodeAt s q = Inr m"
      and cm: "referenceCounter m = c'"
      by (auto simp: nodeRetainCount_eq)
    have "nodeIdentifier m = a" "nodeIdentifier n = b"
      using poolNode_nodeAt q m p n by (fastforce simp: node_def)+
    with that(1) m n have "q \<noteq> p" by auto
    from updateAt_nodeAt_other [OF u this] m have "nodeAt s' q = Inr m" by simp
    with q cm same show ?thesis by (simp add: nodeRetainCount_def node_def)
  qed
  ultimately show ?thesis by blast
qed

lemma release_above_one:
  assumes "nodeAt s p = Inr n" and "1 < referenceCounter n"
  shows "\<exists>s'. release s p = Inr s' \<and>
           nodeAt s' p = Inr (n\<lparr>referenceCounter := referenceCounter n - 1\<rparr>) \<and>
           (\<forall>i. poolNode s' i = poolNode s i)"
proof -
  let ?f = "\<lambda>m. m\<lparr>referenceCounter := referenceCounter m - 1\<rparr>"
  from updateAt_nodeAt_same [OF assms(1), of ?f] obtain s' where
    u: "updateAt s p ?f = Inr s'" and n': "nodeAt s' p = Inr (?f n)"
    by blast
  have "release s p = Inr s'"
    using assms u by (simp add: release_def)
  moreover have "poolNode s' i = poolNode s i" for i
    by (rule updateAt_poolNode [OF u]) simp
  ultimately show ?thesis using n' by blast
qed

lemma fold_max_ge: "(a::int) \<le> fold max xs a"
proof (induction xs arbitrary: a)
  case Nil
  then show ?case by simp
next
  case (Cons x xs)
  have "a \<le> max x a" by simp
  also have "\<dots> \<le> fold max xs (max x a)" by (rule Cons.IH)
  finally show ?case by simp
qed

lemma fold_max_mem: "(x::int) \<in> set xs \<Longrightarrow> x \<le> fold max xs a"
proof (induction xs arbitrary: a)
  case Nil
  then show ?case by simp
next
  case (Cons y ys)
  show ?case
  proof (cases "x = y")
    case True
    have "x \<le> max y a" using True by simp
    also have "\<dots> \<le> fold max ys (max y a)" by (rule fold_max_ge)
    finally show ?thesis by simp
  next
    case False
    with Cons.prems have "x \<in> set ys" by simp
    from Cons.IH [OF this] show ?thesis by simp
  qed
qed

lemma freshIdentifier_nonneg: "0 \<le> freshIdentifier s"
  using fold_max_ge [of "-1" "map nodeIdentifier (buffer s @ staticNodes s)"]
  by (simp add: freshIdentifier_def)

lemma freshIdentifier_above:
  assumes "n \<in> set (buffer s) \<union> set (staticNodes s)"
  shows "nodeIdentifier n < freshIdentifier s"
proof -
  have "nodeIdentifier n \<in> set (map nodeIdentifier (buffer s @ staticNodes s))"
    using assms by auto
  from fold_max_mem [OF this, of "-1"] show ?thesis
    by (simp add: freshIdentifier_def)
qed

section \<open>Copying, moving, assigning and destroying handles\<close>

text \<open>
  Claim C10, as amended.  For a defined handle \<open>a\<close> and a handle \<open>b\<close> that resolves,
  copy and move assignment \<open>a = b\<close> rebind \<open>a\<close> to \<open>b\<close>'s identifier and retain \<open>b\<close>'s
  node once; no release is issued for the node \<open>a\<close> referenced before.  That node's
  retain count is therefore unchanged when \<open>b\<close> references another node, and one
  higher when \<open>a\<close> and \<open>b\<close> reference the same node.
\<close>

theorem assignment_issues_no_release:
  assumes "0 \<le> a" and "nodeRetainCount s a = Inr ca" and "nodeRetainCount s b = Inr cb"
  shows "\<exists>s'. copyAssign s a b = Inr (s', b) \<and> moveAssign s a b = Inr (s', b) \<and>
           nodeRetainCount s' b = Inr (cb + 1) \<and>
           nodeRetainCount s' a = Inr (if a = b then ca + 1 else ca)"
proof -
  from setTo_retains [OF assms(3)] obtain s' where
    s': "setTo s b = Inr (s', b)" and b: "nodeRetainCount s' b = Inr (cb + 1)"
    and other: "\<And>a c. a \<noteq> b \<Longrightarrow> nodeRetainCount s a = Inr c \<Longrightarrow> nodeRetainCount s' a = Inr c"
    by blast
  have "nodeRetainCount s' a = Inr (if a = b then ca + 1 else ca)"
  proof (cases "a = b")
    case True
    with assms(2,3) b show ?thesis by simp
  next
    case False
    with other [OF False assms(2)] show ?thesis by simp
  qed
  with s' b show ?thesis by (simp add: copyAssign_def moveAssign_def)
qed

text \<open>
  Witness: two roots, identifiers 0 and 1, with one and two owners; the handle on 0
  is assigned from a handle on 1.
\<close>

theorem assignment_issues_no_release_witness:
  "(0::int) \<le> 0 \<and>
   nodeRetainCount (poolWith [plainNode 0 0 1, plainNode 1 0 2]) 0 = Inr 1 \<and>
   nodeRetainCount (poolWith [plainNode 0 0 1, plainNode 1 0 2]) 1 = Inr 2 \<and>
   handleOf (copyAssign (poolWith [plainNode 0 0 1, plainNode 1 0 2]) 0 1) = Inr 1 \<and>
   retainCountIn (poolOf (copyAssign (poolWith [plainNode 0 0 1, plainNode 1 0 2]) 0 1)) 1 = Inr 3 \<and>
   retainCountIn (poolOf (moveAssign (poolWith [plainNode 0 0 1, plainNode 1 0 2]) 0 1)) 0 = Inr 1"
proof -
  let ?s = "poolWith [plainNode 0 0 1, plainNode 1 0 2]"
  have a: "nodeRetainCount ?s 0 = Inr 1" by code_simp
  have b: "nodeRetainCount ?s 1 = Inr 2" by code_simp
  from assignment_issues_no_release [OF _ a b] a b show ?thesis
    by (auto simp: retainCountIn_def poolOf_def handleOf_def)
qed

text \<open>
  Counterexample to C10 as stated: both handles reference node 0, which has two
  owners; after \<open>a = b\<close> the node \<open>a\<close> referenced before has three.
\<close>

theorem assignment_same_node_counterexample:
  "nodeRetainCount (poolWith [plainNode 0 0 2]) 0 = Inr 2 \<and>
   retainCountIn (poolOf (copyAssign (poolWith [plainNode 0 0 2]) 0 0)) 0 = Inr 3 \<and>
   retainCountIn (poolOf (moveAssign (poolWith [plainNode 0 0 2]) 0 0)) 0 = Inr 3"
  by code_simp

text \<open>
  Claim C2, as amended.  For a handle \<open>h\<close> whose node has retain count \<open>c\<close>:
  copy construction, copy assignment, move construction and move assignment from \<open>h\<close>
  all give a handle with \<open>h\<close>'s identifier and leave the node with retain count
  \<open>c + 1\<close> (a move is carried out as a copy; the moved-from handle keeps its
  identifier).  Destroying a handle with a non-negative identifier releases its node:
  with more than one owner the count drops to \<open>c - 1\<close>.
\<close>

theorem copy_and_move_retain_destroy_releases:
  assumes "nodeRetainCount s h = Inr c"
  shows "(\<exists>s'. copyConstruct s h = Inr (s', h) \<and> copyAssign s a h = Inr (s', h) \<and>
               moveConstruct s h = Inr (s', h) \<and> moveAssign s a h = Inr (s', h) \<and>
               nodeRetainCount s' h = Inr (c + 1)) \<and>
         (0 \<le> h \<longrightarrow> destroy s h = andThen (deref (node s h)) (release s)) \<and>
         (0 \<le> h \<and> 1 < c \<longrightarrow>
            (\<exists>s'. destroy s h = Inr s' \<and> nodeRetainCount s' h = Inr (c - 1)))"
proof -
  from assms obtain p n where p: "node s h = Some p" and n: "nodeAt s p = Inr n"
    and c: "referenceCounter n = c"
    by (auto simp: nodeRetainCount_eq)
  have idn: "nodeIdentifier n = h"
    using poolNode_nodeAt [of s h p] p n by (simp add: node_def)
  from setTo_retains [OF assms] obtain s' where
    s': "setTo s h = Inr (s', h)" and h: "nodeRetainCount s' h = Inr (c + 1)"
    by blast
  have first: "\<exists>s'. copyConstruct s h = Inr (s', h) \<and> copyAssign s a h = Inr (s', h) \<and>
               moveConstruct s h = Inr (s', h) \<and> moveAssign s a h = Inr (s', h) \<and>
               nodeRetainCount s' h = Inr (c + 1)"
    using s' h
    by (simp add: copyConstruct_def copyAssign_def moveConstruct_def moveAssign_def)
  have d: "destroy s h = release s p" if "0 \<le> h"
    using that p n idn by (simp add: destroy_def)
  have second: "0 \<le> h \<longrightarrow> destroy s h = andThen (deref (node s h)) (release s)"
    using d p by simp
  have third: "\<exists>s'. destroy s h = Inr s' \<and> nodeRetainCount s' h = Inr (c - 1)"
    if "0 \<le> h" "1 < c"
  proof -
    from release_above_one [OF n] that(2) c obtain s'' where
      r: "release s p = Inr s''"
      and n'': "nodeAt s'' p = Inr (n\<lparr>referenceCounter := referenceCounter n - 1\<rparr>)"
      and same: "\<And>i. poolNode s'' i = poolNode s i"
      by auto
    have "nodeRetainCount s'' h = Inr (c - 1)"
      using p n'' c same by (simp add: nodeRetainCount_def node_def)
    with r d [OF that(1)] show ?thesis by simp
  qed
  from first second third show ?thesis by blast
qed

text \<open>Witness: a root with two owners is copied, moved from, and one handle destroyed.\<close>

theorem copy_and_move_retain_destroy_releases_witness:
  "nodeRetainCount (poolWith [plainNode 0 0 2]) 0 = Inr 2 \<and>
   retainCountIn (poolOf (copyConstruct (poolWith [plainNode 0 0 2]) 0)) 0 = Inr 3 \<and>
   retainCountIn (poolOf (moveConstruct (poolWith [plainNode 0 0 2]) 0)) 0 = Inr 3 \<and>
   retainCountIn (destroy (poolWith [plainNode 0 0 2]) 0) 0 = Inr 1"
proof -
  let ?s = "poolWith [plainNode 0 0 2]"
  have a: "nodeRetainCount ?s 0 = Inr 2" by code_simp
  note t = copy_and_move_retain_destroy_releases [OF a, of 0]
  from t [THEN conjunct1] obtain s1 where "copyConstruct ?s 0 = Inr (s1, 0)"
    and "moveConstruct ?s 0 = Inr (s1, 0)" and "nodeRetainCount s1 0 = Inr 3"
    by auto
  moreover from t [THEN conjunct2, THEN conjunct2]
  obtain s2 where "destroy ?s 0 = Inr s2" and "nodeRetainCount s2 0 = Inr 1"
    by auto
  ultimately show ?thesis using a
    by (simp add: retainCountIn_def poolOf_def)
qed

text \<open>
  Counterexample to C2 as stated: move construction and move assignment from the
  only handle of node 0 raise its retain count from one to two.
\<close>

theorem move_changes_retain_count_counterexample:
  "nodeRetainCount (poolWith [plainNode 0 0 1]) 0 = Inr 1 \<and>
   retainCountIn (poolOf (moveConstruct (poolWith [plainNode 0 0 1]) 0)) 0 = Inr 2 \<and>
   retainCountIn (poolOf (moveAssign (poolWith [plainNode 0 0 1]) (-1) 0)) 0 = Inr 2"
  by code_simp

section \<open>Construction and \<^verbatim>\<open>isDefined\<close>\<close>

text \<open>
  Claim C9.  Default construction allocates a node of the handle's static type and
  takes its identifier.  It succeeds whenever the arena has room for the record, and
  every handle it returns is defined and has a non-negative identifier.  In general
  \<open>isDefined\<close> is false exactly when the identifier is negative or the identifier
  does not resolve to a record.
\<close>

theorem fresh_handle_is_defined:
  "(usedBytes s + nodeSize proto \<le> capacity s \<longrightarrow>
      (\<exists>s' h. defaultConstruct s proto = Inr (s', h))) \<and>
   (\<forall>s' h. defaultConstruct s proto = Inr (s', h) \<longrightarrow> isDefined s' h \<and> 0 \<le> h) \<and>
   (\<not> isDefined s k \<longleftrightarrow> k < 0 \<or> node s k = None)"
proof -
  let ?n = "proto\<lparr>nodeIdentifier := freshIdentifier s, referenceCounter := 1,
                   numberOfChildren := 0\<rparr>"
  let ?s = "s\<lparr>buffer := buffer s @ [?n]\<rparr>"
  have ok: "defaultConstruct s proto = Inr (?s, freshIdentifier s)"
    if "usedBytes s + nodeSize proto \<le> capacity s"
    using that by (simp add: defaultConstruct_def createTreeNode_def nodeAt_def)
  have ko: "defaultConstruct s proto = Inl CapacityExhausted"
    if "\<not> usedBytes s + nodeSize proto \<le> capacity s"
    using that by (simp add: defaultConstruct_def createTreeNode_def)
  have "indexOfIdentifier (freshIdentifier s) (buffer ?s) \<noteq> None"
    by (simp add: indexOfIdentifier_None_iff)
  then have def: "isDefined ?s (freshIdentifier s)"
    by (auto simp: isDefined_def node_def poolNode_def freshIdentifier_nonneg
        split: option.splits)
  have "isDefined s' h \<and> 0 \<le> h" if "defaultConstruct s proto = Inr (s', h)" for s' h
  proof (cases "usedBytes s + nodeSize proto \<le> capacity s")
    case True
    from ok [OF True] that have "s' = ?s" "h = freshIdentifier s" by simp_all
    with def show ?thesis by (simp add: freshIdentifier_nonneg)
  next
    case False
    from ko [OF False] that show ?thesis by simp
  qed
  moreover have "\<not> isDefined s k \<longleftrightarrow> k < 0 \<or> node s k = None"
    by (auto simp: isDefined_def)
  ultimately show ?thesis using ok by blast
qed

text \<open>
  Witness: a pool of 64 bytes holding one 8-byte node; a second node is constructed.
  The undefined handle \<open>-1\<close> is not defined.
\<close>

theorem fresh_handle_is_defined_witness:
  "usedBytes (poolWith [plainNode 0 0 1]) + nodeSize (plainNode 0 0 0)
     \<le> capacity (poolWith [plainNode 0 0 1]) \<and>
   handleOf (defaultConstruct (poolWith [plainNode 0 0 1]) (plainNode 0 0 0)) = Inr 101 \<and>
   definedIn (defaultConstruct (poolWith [plainNode 0 0 1]) (plainNode 0 0 0)) \<and>
   \<not> isDefined (poolWith [plainNode 0 0 1]) (-1)"
proof -
  let ?s = "poolWith [plainNode 0 0 1]"
  let ?p = "plainNode 0 0 0"
  have c: "usedBytes ?s + nodeSize ?p \<le> capacity ?s" by code_simp
  note t = fresh_handle_is_defined [of ?s ?p "-1"]
  from t c obtain s' h where r: "defaultConstruct ?s ?p = Inr (s', h)" by blast
  with t have "isDefined s' h" by blast
  with r have d: "definedIn (defaultConstruct ?s ?p)" by (simp add: definedIn_def)
  have h: "handleOf (defaultConstruct ?s ?p) = Inr 101" by code_simp
  from t have "\<not> isDefined ?s (-1)" by simp
  with c d h show ?thesis by simp
qed

section \<open>Hierarchy mutation on a failure sentinel\<close>

text \<open>
  Of the hierarchy mutations only \<^verbatim>\<open>addChildAtIndex\<close> tests
  \<^verbatim>\<open>node()->isAllocationFailure()\<close>: on a failure sentinel it returns at once and
  the arena is unchanged.
\<close>

lemma addChildAtIndex_noop_on_sentinel:
  assumes "refIsAllocationFailure s self = Inr True"
  shows "addChildAtIndex s self t index = Inr s"
proof -
  from assms obtain p n where "node s self = Some p" and "nodeAt s p = Inr n"
    and "isAllocationFailure n"
    by (cases "node s self") (auto simp: refIsAllocationFailure_def andThen_eq_Inr)
  then show ?thesis by (simp add: addChildAtIndex_def)
qed

text \<open>
  \<^verbatim>\<open>swapChildren\<close> asserts both indices below the child count, so on a node without
  children, as a failure sentinel is, the assertion fails for every pair of indices.
\<close>

lemma swapChildren_on_childless:
  "refNumberOfChildren s self = Inr 0 \<Longrightarrow> swapChildren s self i j = Inl AssertionFailed"
  by (simp add: swapChildren_def assert_def)

text \<open>
  Claim C3.  The claim says that on a handle whose node is a failure sentinel each of
  \<open>addChildAtIndex\<close>, \<open>removeChild\<close>, \<open>replaceChildAtIndex\<close> and \<open>swapChildren\<close> leaves the
  arena unchanged.  \<^verbatim>\<open>removeChild\<close> lacks the test that \<^verbatim>\<open>addChildAtIndex\<close> has.
  In the arena that holds a sentinel root 7 and an ordinary root 1 with two owners,
  \<open>removeChild(1)\<close> on the sentinel moves node 1 to the end, releases it, so that it
  keeps one owner, and decrements the child count of the sentinel, which becomes
  \<open>-1\<close>; the pool it returns is not the pool it was given.  On the same arena
  \<open>addChildAtIndex\<close> returns the pool unchanged, and \<open>swapChildren\<close> and
  \<open>replaceChildAtIndex\<close> stop at their index assertion.  The layout lists
  (identifier, child count, retain count).
\<close>

theorem removeChild_on_sentinel_not_noop:
  "refIsAllocationFailure (poolWith [sentinelNode 7 1, plainNode 1 0 2]) 7 = Inr True \<and>
   layoutOf (Inr (poolWith [sentinelNode 7 1, plainNode 1 0 2])) = Inr [(7, 0, 1), (1, 0, 2)] \<and>
   layoutOf (removeChild (poolWith [sentinelNode 7 1, plainNode 1 0 2]) 7 1)
     = Inr [(7, -1, 1), (1, 0, 1)] \<and>
   removeChild (poolWith [sentinelNode 7 1, plainNode 1 0 2]) 7 1
     \<noteq> Inr (poolWith [sentinelNode 7 1, plainNode 1 0 2]) \<and>
   addChildAtIndex (poolWith [sentinelNode 7 1, plainNode 1 0 2]) 7 1 0
     = Inr (poolWith [sentinelNode 7 1, plainNode 1 0 2]) \<and>
   swapChildren (poolWith [sentinelNode 7 1, plainNode 1 0 2]) 7 0 0 = Inl AssertionFailed \<and>
   replaceChildAtIndex (poolWith [sentinelNode 7 1, plainNode 1 0 2]) 7 0 1
     = Inl AssertionFailed"
  by code_simp

section \<open>Replacing a child by a failed child\<close>

text \<open>
  Claim C5.  When \<open>newChild.isAllocationFailure()\<close> holds, the whole call
  \<open>replaceChildAtIndex(oldIndex, newChild)\<close> is \<open>self.replaceWithAllocationFailure()\<close>:
  its result is that of the protocol run on \<open>self\<close>, and nothing of the normal
  replacement path takes place.
\<close>

theorem replaceChildAtIndex_degrades_on_failed_child:
  assumes "refIsAllocationFailure s newChild = Inr True"
  shows "replaceChildAtIndex s self oldChildIndex newChild = replaceWithAllocationFailure s self"
  using assms by (simp add: replaceChildAtIndex_def)

text \<open>
  Witness: the tree 0(1, 2) and a sentinel root 7.  Replacing child 0 of node 0 by the
  sentinel turns node 0 itself into a sentinel; its children 1 and 2 are released
  and, having no other owner, destroyed.
\<close>

theorem replaceChildAtIndex_degrades_on_failed_child_witness:
  "refIsAllocationFailure
     (poolWith [plainNode 0 2 1, plainNode 1 0 1, plainNode 2 0 1, sentinelNode 7 1]) 7
     = Inr True \<and>
   layoutOf (replaceChildAtIndex
     (poolWith [plainNode 0 2 1, plainNode 1 0 1, plainNode 2 0 1, sentinelNode 7 1]) 0 0 7)
     = Inr [(7, 0, 1), (0, 0, 1)]"
proof -
  let ?s = "poolWith [plainNode 0 2 1, plainNode 1 0 1, plainNode 2 0 1, sentinelNode 7 1]"
  have f: "refIsAllocationFailure ?s 7 = Inr True" by code_simp
  have r: "layoutOf (replaceWithAllocationFailure ?s 0) = Inr [(7, 0, 1), (0, 0, 1)]"
    by code_simp
  from replaceChildAtIndex_degrades_on_failed_child [OF f, of 0 0] f r show ?thesis
    by simp
qed

section \<open>Swapping children\<close>

text \<open>
  Claim C4 at the tree 0(1, 2(3)), laid out as the records 0, 1, 2, 3 with child
  counts 2, 0, 1, 0.  \<open>swapChildren(0, 1)\<close> moves child 1 to
  \<open>secondChild.node()->next()\<close>, the position right after the header of child 2,
  which is where the subtree of node 2 begins, not where it ends.  The records come
  out as 0, 2, 1, 3 with the same child counts, that is the tree 0(2(1), 3): the
  children of node 0 were not swapped, and node 1 has become a child of node 2.  A
  second call gives 0, 3, 2, 1, the tree 0(3, 2(1)), not the original.  The layout
  lists (identifier, child count, retain count).
\<close>

theorem swapChildren_second_child_with_children:
  "layoutOf (Inr (poolWith [plainNode 0 2 1, plainNode 1 0 1, plainNode 2 1 1, plainNode 3 0 1]))
     = Inr [(0, 2, 1), (1, 0, 1), (2, 1, 1), (3, 0, 1)] \<and>
   layoutOf (swapChildren
       (poolWith [plainNode 0 2 1, plainNode 1 0 1, plainNode 2 1 1, plainNode 3 0 1]) 0 0 1)
     = Inr [(0, 2, 1), (2, 1, 1), (1, 0, 1), (3, 0, 1)] \<and>
   layoutOf (swapChildrenTwice
       (poolWith [plainNode 0 2 1, plainNode 1 0 1, plainNode 2 1 1, plainNode 3 0 1]) 0 0 1)
     = Inr [(0, 2, 1), (3, 0, 1), (2, 1, 1), (1, 0, 1)]"
  by code_simp

section \<open>Facts about the depth-first layout\<close>

lemma skipTrees_append:
  "skipTrees k xs = Some ys \<Longrightarrow> skipTrees k (xs @ zs) = Some (ys @ zs)"
  by (induction k xs rule: skipTrees.induct) simp_all

lemma skipTrees_suffix:
  "skipTrees k xs = Some rest \<Longrightarrow>
   \<exists>pre. xs = pre @ rest \<and> skipTrees k pre = Some [] \<and> k \<le> length pre"
proof (induction k xs rule: skipTrees.induct)
  case (1 xs)
  then show ?case by simp
next
  case (2 k)
  then show ?case by simp
next
  case (3 k x xs)
  from "3.prems" have "skipTrees (k + nat (numberOfChildren x)) xs = Some rest" by simp
  from "3.IH" [OF this] obtain pre where "xs = pre @ rest"
    and "skipTrees (k + nat (numberOfChildren x)) pre = Some []"
    and "k + nat (numberOfChildren x) \<le> length pre"
    by blast
  then have "x # xs = (x # pre) @ rest \<and> skipTrees (Suc k) (x # pre) = Some [] \<and>
             Suc k \<le> length (x # pre)"
    by simp
  then show ?case by blast
qed

lemma skipTrees_add:
  "skipTrees (j + k) xs = Option.bind (skipTrees j xs) (skipTrees k)"
proof (induction j xs rule: skipTrees.induct)
  case (1 xs)
  then show ?case by simp
next
  case (2 j)
  then show ?case by simp
next
  case (3 j x xs)
  have e: "j + k + nat (numberOfChildren x) = j + nat (numberOfChildren x) + k" by simp
  have "skipTrees (Suc j + k) (x # xs) = skipTrees (j + k + nat (numberOfChildren x)) xs"
    by simp
  also have "\<dots> = skipTrees (j + nat (numberOfChildren x) + k) xs"
    by (simp only: e)
  also have "\<dots> = Option.bind (skipTrees (Suc j) (x # xs)) (skipTrees k)"
    using "3.IH" by simp
  finally show ?case .
qed

lemma skipTrees_children_cong:
  "map numberOfChildren xs = map numberOfChildren ys \<Longrightarrow>
   map_option length (skipTrees k xs) = map_option length (skipTrees k ys)"
proof (induction k xs arbitrary: ys rule: skipTrees.induct)
  case (1 xs)
  from arg_cong [OF "1.prems", of length] show ?case by simp
next
  case (2 k)
  then show ?case by simp
next
  case (3 k x xs)
  from "3.prems" obtain y ys' where ys: "ys = y # ys'"
    and "numberOfChildren x = numberOfChildren y"
    and "map numberOfChildren xs = map numberOfChildren ys'"
    by (cases ys) auto
  with "3.IH" [of ys'] show ?case by simp
qed

lemma subtreeLength_eq:
  "subtreeLength buf i = Some l \<longleftrightarrow>
   (\<exists>pre rest. drop i buf = pre @ rest \<and> skipTrees (Suc 0) pre = Some [] \<and> length pre = l)"
proof
  assume "subtreeLength buf i = Some l"
  then obtain rest where r: "skipTrees (Suc 0) (drop i buf) = Some rest"
    and l: "l = length buf - i - length rest"
    by (auto simp: subtreeLength_def split: option.splits)
  from skipTrees_suffix [OF r] obtain pre where p: "drop i buf = pre @ rest"
    and f: "skipTrees (Suc 0) pre = Some []"
    by blast
  from arg_cong [OF p, of length] l have "length pre = l" by simp
  with p f show "\<exists>pre rest. drop i buf = pre @ rest \<and> skipTrees (Suc 0) pre = Some [] \<and>
      length pre = l"
    by blast
next
  assume "\<exists>pre rest. drop i buf = pre @ rest \<and> skipTrees (Suc 0) pre = Some [] \<and> length pre = l"
  then obtain pre rest where p: "drop i buf = pre @ rest"
    and f: "skipTrees (Suc 0) pre = Some []" and l: "length pre = l"
    by blast
  from skipTrees_append [OF f, of rest] p
  have "skipTrees (Suc 0) (drop i buf) = Some rest" by simp
  moreover from arg_cong [OF p, of length] l have "length buf - i - length rest = l" by simp
  ultimately show "subtreeLength buf i = Some l" by (simp add: subtreeLength_def)
qed

section \<open>Cloning\<close>

lemma updateAt_map:
  assumes "updateAt s p g = Inr s'" and "\<And>n. f (g n) = f n"
  shows "map f (buffer s') = map f (buffer s) \<and> map f (staticNodes s') = map f (staticNodes s)"
proof -
  have "map f (xs[k := g (xs ! k)]) = map f xs" for xs k
    using assms(2) by (simp add: map_update) (metis list_update_id map_update)
  with assms(1) show ?thesis
    by (cases p) (auto simp: updateAt_def split: if_splits)
qed

lemma setIdentifierAndRetain_ok:
  assumes "node s b = Some p" and "nodeAt s p = Inr n"
  shows "\<exists>s'. setIdentifierAndRetain s b = Inr (s', b) \<and>
           updateAt s p (\<lambda>n. n\<lparr>referenceCounter := referenceCounter n + 1\<rparr>) = Inr s' \<and>
           nodeAt s' p = Inr (n\<lparr>referenceCounter := referenceCounter n + 1\<rparr>)"
  using assms updateAt_nodeAt_same [OF assms(2), of "\<lambda>n. n\<lparr>referenceCounter := referenceCounter n + 1\<rparr>"]
  by (auto simp: setIdentifierAndRetain_def retain_def)

lemma renameFrom_length [simp]: "length (renameFrom f xs) = length xs"
  by (induction xs arbitrary: f) simp_all

lemma renameFrom_shape: "map nodeShape (renameFrom f xs) = map nodeShape xs"
  by (induction xs arbitrary: f) (simp_all add: nodeShape_def)

lemma renameFrom_identifiers:
  "n \<in> set (renameFrom f xs) \<Longrightarrow> f \<le> nodeIdentifier n"
proof (induction xs arbitrary: f)
  case Nil
  then show ?case by simp
next
  case (Cons x xs)
  from Cons.prems have "nodeIdentifier n = f \<or> n \<in> set (renameFrom (f + 1) xs)" by auto
  then show ?case
  proof
    assume "nodeIdentifier n = f"
    then show ?thesis by simp
  next
    assume "n \<in> set (renameFrom (f + 1) xs)"
    from Cons.IH [OF this] show ?thesis by simp
  qed
qed

lemma indexOfIdentifier_append_left:
  "indexOfIdentifier i xs = Some k \<Longrightarrow> indexOfIdentifier i (xs @ ys) = Some k"
  by (induction xs arbitrary: k) (auto split: if_splits)

lemma indexOfIdentifier_append_right:
  "indexOfIdentifier i xs = None \<Longrightarrow> indexOfIdentifier i ys = Some k \<Longrightarrow>
   indexOfIdentifier i (xs @ ys) = Some (length xs + k)"
  by (induction xs) (auto split: if_splits)

lemma nodeShape_children:
  "map nodeShape xs = map nodeShape ys \<Longrightarrow> map numberOfChildren xs = map numberOfChildren ys"
proof -
  assume "map nodeShape xs = map nodeShape ys"
  then have "map (fst \<circ> snd) (map nodeShape xs) = map (fst \<circ> snd) (map nodeShape ys)" by simp
  then show ?thesis by (simp add: nodeShape_def comp_def)
qed

lemma clone_sentinel:
  assumes "node s h = Some p" and "nodeAt s p = Inr n" and "isAllocationFailure n"
    and "poolNode s (allocationFailureNodeIdentifier n) = Some q"
  shows "\<exists>s'. clone s h = Inr (s', allocationFailureNodeIdentifier n) \<and>
           node s' (allocationFailureNodeIdentifier n) = Some q \<and>
           map nodeIdentifier (buffer s') = map nodeIdentifier (buffer s) \<and>
           map nodeShape (buffer s') = map nodeShape (buffer s)"
proof -
  let ?a = "allocationFailureNodeIdentifier n"
  let ?g = "\<lambda>n. n\<lparr>referenceCounter := referenceCounter n + 1\<rparr>"
  from poolNode_nodeAt [OF assms(4)] obtain c where c: "nodeAt s q = Inr c"
    and ci: "nodeIdentifier c = ?a"
    by blast
  from assms(4) have q: "node s ?a = Some q" by (simp add: node_def)
  from setIdentifierAndRetain_ok [OF q c] obtain s' where
    r: "setIdentifierAndRetain s ?a = Inr (s', ?a)" and u: "updateAt s q ?g = Inr s'"
    by blast
  have "clone s h = Inr (s', ?a)"
    using assms c ci r by (simp add: clone_def fromNode_def)
  moreover have "node s' ?a = Some q"
    using updateAt_poolNode [OF u, of ?a] q by (simp add: node_def)
  moreover have "map nodeIdentifier (buffer s') = map nodeIdentifier (buffer s)"
    using updateAt_map [OF u, of nodeIdentifier] by simp
  moreover have "map nodeShape (buffer s') = map nodeShape (buffer s)"
    using updateAt_map [OF u, of nodeShape] by (simp add: nodeShape_def)
  ultimately show ?thesis by blast
qed

lemma clone_copy:
  assumes "node s h = Some (Arena i)" and "nodeAt s (Arena i) = Inr n"
    and "\<not> isAllocationFailure n"
    and "subtreeLength (buffer s) i = Some l"
    and "usedBytes s + sum_list (map nodeSize (take l (drop i (buffer s)))) \<le> capacity s"
  shows "\<exists>s' copy. clone s h = Inr (s', freshIdentifier s) \<and>
           buffer s' = buffer s @ copy \<and>
           node s' (freshIdentifier s) = Some (Arena (length (buffer s))) \<and>
           subtreeLength (buffer s') (length (buffer s)) = Some l \<and>
           map nodeShape copy = map nodeShape (take l (drop i (buffer s))) \<and>
           set (map nodeIdentifier copy) \<inter> set (map nodeIdentifier (buffer s)) = {}"
proof -
  let ?f = "freshIdentifier s"
  let ?g = "\<lambda>n. n\<lparr>referenceCounter := referenceCounter n + 1\<rparr>"
  let ?buf = "buffer s"
  from assms(4) obtain pre rest where d: "drop i ?buf = pre @ rest"
    and t: "skipTrees (Suc 0) pre = Some []" and lp: "length pre = l"
    by (auto simp: subtreeLength_eq)
  from d lp have sub: "take l (drop i ?buf) = pre" by simp
  from t obtain x pre' where pre: "pre = x # pre'" by (cases pre) auto
  let ?cp = "renameFrom ?f pre"
  let ?s1 = "s\<lparr>buffer := ?buf @ ?cp\<rparr>"
  have dc: "deepCopy s (Arena i) = Inr (?s1, Arena (length ?buf))"
    using assms(4,5) sub by (simp add: deepCopy_def allocCopy_def)
  have cp: "?cp = x\<lparr>nodeIdentifier := ?f\<rparr> # renameFrom (?f + 1) pre'"
    using pre by simp
  have at1: "nodeAt ?s1 (Arena (length ?buf)) = Inr (x\<lparr>nodeIdentifier := ?f\<rparr>)"
    using cp by (simp add: nodeAt_def nth_append)
  have notin: "indexOfIdentifier ?f ?buf = None"
    using freshIdentifier_above [of _ s] by (fastforce simp: indexOfIdentifier_None_iff)
  have "indexOfIdentifier ?f ?cp = Some 0" using cp by simp
  from indexOfIdentifier_append_right [OF notin this]
  have n1: "node ?s1 ?f = Some (Arena (length ?buf))"
    by (simp add: node_def poolNode_def)
  from setIdentifierAndRetain_ok [OF n1 at1] obtain s' where
    r: "setIdentifierAndRetain ?s1 ?f = Inr (s', ?f)"
    and u: "updateAt ?s1 (Arena (length ?buf)) ?g = Inr s'"
    by blast
  have cl: "clone s h = Inr (s', ?f)"
    using assms(1-3) dc at1 r by (simp add: clone_def fromNode_def)
  let ?copy = "?g (x\<lparr>nodeIdentifier := ?f\<rparr>) # renameFrom (?f + 1) pre'"
  have b': "buffer s' = ?buf @ ?copy"
    using u cp by (auto simp: updateAt_def list_update_append nth_append)
  have ids: "map nodeIdentifier ?copy = map nodeIdentifier ?cp"
    and shp: "map nodeShape ?copy = map nodeShape ?cp"
    using cp by (simp_all add: nodeShape_def)
  have n': "node s' ?f = Some (Arena (length ?buf))"
    using updateAt_poolNode [OF u, of ?f] n1 by (simp add: node_def)
  have shape: "map nodeShape ?copy = map nodeShape pre"
    using shp by (simp only: renameFrom_shape)
  from skipTrees_children_cong [OF nodeShape_children [OF shape], of "Suc 0"] t
  have "skipTrees (Suc 0) ?copy = Some []" by (simp del: skipTrees.simps)
  then have sl: "subtreeLength (buffer s') (length ?buf) = Some l"
    unfolding subtreeLength_eq b' using lp pre
    by (intro exI [of _ ?copy] exI [of _ "[]"]) simp
  have disj: "set (map nodeIdentifier ?copy) \<inter> set (map nodeIdentifier ?buf) = {}"
  proof -
    have "nodeIdentifier m < ?f" if "m \<in> set ?buf" for m
      using that freshIdentifier_above [of m s] by simp
    moreover have "?f \<le> nodeIdentifier m" if "m \<in> set ?cp" for m
      using that by (rule renameFrom_identifiers)
    ultimately have "set (map nodeIdentifier ?cp) \<inter> set (map nodeIdentifier ?buf) = {}"
      by fastforce
    with ids show ?thesis by simp
  qed
  from cl b' n' sl shape sub disj show ?thesis by blast
qed

text \<open>
  Claim C8.  Let \<open>h\<close> resolve to a record \<open>n\<close>.  If \<open>n\<close> is a failure sentinel (and its
  type's canonical sentinel resolves, to \<open>q\<close>), \<open>clone\<close> returns a handle that carries the
  canonical sentinel's identifier and resolves to \<open>q\<close>; the arena holds the same
  records as before, so nothing was copied.  Otherwise, for \<open>n\<close> in the arena with a
  complete subtree of \<open>l\<close> records that fits the remaining capacity, \<open>clone\<close> appends a
  copy and returns a handle on its root: the copy is again a complete subtree of \<open>l\<close>
  records, has the same type tags, child counts, sizes and order as the original,
  and carries identifiers that no record of the arena had.
\<close>

theorem clone_shares_sentinel_or_copies:
  assumes "node s h = Some p" and "nodeAt s p = Inr n"
  shows "(isAllocationFailure n \<and> poolNode s (allocationFailureNodeIdentifier n) = Some q \<longrightarrow>
            (\<exists>s'. clone s h = Inr (s', allocationFailureNodeIdentifier n) \<and>
                  node s' (allocationFailureNodeIdentifier n) = Some q \<and>
                  map nodeIdentifier (buffer s') = map nodeIdentifier (buffer s) \<and>
                  map nodeShape (buffer s') = map nodeShape (buffer s))) \<and>
         (\<not> isAllocationFailure n \<and> p = Arena i \<and> subtreeLength (buffer s) i = Some l \<and>
          usedBytes s + sum_list (map nodeSize (take l (drop i (buffer s)))) \<le> capacity s \<longrightarrow>
            (\<exists>s' copy. clone s h = Inr (s', freshIdentifier s) \<and>
                  buffer s' = buffer s @ copy \<and>
                  node s' (freshIdentifier s) = Some (Arena (length (buffer s))) \<and>
                  subtreeLength (buffer s') (length (buffer s)) = Some l \<and>
                  map nodeShape copy = map nodeShape (take l (drop i (buffer s))) \<and>
                  set (map nodeIdentifier copy) \<inter> set (map nodeIdentifier (buffer s)) = {}))"
  using clone_sentinel [OF assms] clone_copy [of s h i n l] assms by blast

text \<open>
  Witness: the tree 0(1) and a sentinel root 7.  Cloning the sentinel gives a handle
  on the canonical sentinel 100 and leaves the three records in place; cloning node 0
  appends the records 101 and 102.  The layout lists (identifier, child count, retain
  count).
\<close>

theorem clone_shares_sentinel_or_copies_witness:
  "node (poolWith [plainNode 0 1 1, plainNode 1 0 1, sentinelNode 7 1]) 7 = Some (Arena 2) \<and>
   handleOf (clone (poolWith [plainNode 0 1 1, plainNode 1 0 1, sentinelNode 7 1]) 7) = Inr 100 \<and>
   layoutOf (poolOf (clone (poolWith [plainNode 0 1 1, plainNode 1 0 1, sentinelNode 7 1]) 7))
     = Inr [(0, 1, 1), (1, 0, 1), (7, 0, 1)] \<and>
   node (poolWith [plainNode 0 1 1, plainNode 1 0 1, sentinelNode 7 1]) 0 = Some (Arena 0) \<and>
   handleOf (clone (poolWith [plainNode 0 1 1, plainNode 1 0 1, sentinelNode 7 1]) 0) = Inr 101 \<and>
   layoutOf (poolOf (clone (poolWith [plainNode 0 1 1, plainNode 1 0 1, sentinelNode 7 1]) 0))
     = Inr [(0, 1, 1), (1, 0, 1), (7, 0, 1), (101, 1, 2), (102, 0, 1)]"
proof -
  let ?s = "poolWith [plainNode 0 1 1, plainNode 1 0 1, sentinelNode 7 1]"
  have n7: "node ?s 7 = Some (Arena 2)" by code_simp
  have a7: "nodeAt ?s (Arena 2) = Inr (sentinelNode 7 1)" by code_simp
  have f7: "isAllocationFailure (sentinelNode 7 1)" by code_simp
  have q: "poolNode ?s (allocationFailureNodeIdentifier (sentinelNode 7 1)) = Some (Static 0)"
    by code_simp
  from clone_shares_sentinel_or_copies [OF n7 a7, of "Static 0" 0 0] f7 q
  obtain s' where "clone ?s 7 = Inr (s', allocationFailureNodeIdentifier (sentinelNode 7 1))"
    by blast
  moreover have "allocationFailureNodeIdentifier (sentinelNode 7 1) = 100" by code_simp
  ultimately have h7: "handleOf (clone ?s 7) = Inr 100" by (simp add: handleOf_def)
  have l7: "layoutOf (poolOf (clone ?s 7)) = Inr [(0, 1, 1), (1, 0, 1), (7, 0, 1)]"
    by code_simp
  have n0: "node ?s 0 = Some (Arena 0)" by code_simp
  have h0: "handleOf (clone ?s 0) = Inr 101" by code_simp
  have l0: "layoutOf (poolOf (clone ?s 0))
      = Inr [(0, 1, 1), (1, 0, 1), (7, 0, 1), (101, 1, 2), (102, 0, 1)]"
    by code_simp
  from n7 h7 l7 n0 h0 l0 show ?thesis by simp
qed

section \<open>Facts about release and about the failure protocol\<close>

lemma releaseScan_identifiers:
  "releaseScan keep rel xs = Inr ys \<Longrightarrow>
   nodeIdentifier ` set ys \<subseteq> nodeIdentifier ` set xs \<and>
   (distinct (map nodeIdentifier xs) \<longrightarrow> distinct (map nodeIdentifier ys))"
proof (induction keep rel xs arbitrary: ys rule: releaseScan.induct)
  case (1 keep rel)
  then show ?case by (simp split: if_splits)
next
  case (2 keep rel x xs)
  show ?case
  proof (cases "0 < keep")
    case True
    with "2.prems" obtain zs where
      z: "releaseScan (keep - 1 + nat (numberOfChildren x)) rel xs = Inr zs" and ys: "ys = x # zs"
      by (auto simp: andThen_eq_Inr)
    from "2.IH"(1) [OF True z] ys show ?thesis by auto
  next
    case False
    note nk = False
    show ?thesis
    proof (cases "0 < rel")
      case True
      note r = True
      from "2.prems" nk r have pos: "\<not> referenceCounter x \<le> 0" by (auto split: if_splits)
      show ?thesis
      proof (cases "referenceCounter x - 1 = 0")
        case True
        with "2.prems" nk r pos
        have "releaseScan 0 (rel - 1 + nat (numberOfChildren x)) xs = Inr ys" by simp
        from "2.IH"(2) [OF nk r pos True this] show ?thesis by auto
      next
        case False
        with "2.prems" nk r pos obtain zs where
          z: "releaseScan (nat (numberOfChildren x)) (rel - 1) xs = Inr zs"
          and ys: "ys = x\<lparr>referenceCounter := referenceCounter x - 1\<rparr> # zs"
          by (auto simp: andThen_eq_Inr)
        from "2.IH"(3) [OF nk r pos False z] ys show ?thesis by auto
      qed
    next
      case False
      with "2.prems" nk show ?thesis by simp
    qed
  qed
qed

lemma rwaf_steps:
  assumes "replaceWithAllocationFailure s self = Inr s'"
  shows "\<exists>s1 p n1 idx r k s2 s3 n3 s4 s5 nn s6.
     parent s self = Inr (s1, p) \<and> node s1 self = Some n1 \<and> indexInParent s1 n1 = Inr idx \<and>
     nodeAt s1 n1 = Inr r \<and> failedAllocationStaticNode s1 r = Some k \<and>
     move s1 n1 (poolLast s1) = Inr s2 \<and>
     (if isDefined s2 p then refDecrementNumberOfChildren s2 p else Inr s2) = Inr s3 \<and>
     node s3 self = Some n3 \<and> releaseChildrenAndDestroy s3 n3 = Inr s4 \<and>
     deepCopy s4 k = Inr (s5, nn) \<and> rename s5 nn self = Inr s6 \<and>
     (if isDefined s6 p then
         andThen (assert (0 \<le> idx)) (\<lambda>_.
         andThen (setReferenceCounter s6 nn (referenceCounter r - 1)) (\<lambda>s7.
         andThen (fromNode s7 (Some nn)) (\<lambda>(s8, t).
         andThen (addChildAtIndex s8 p t idx) (\<lambda>s9.
         andThen (destroy s9 t) (\<lambda>s10.
         destroy s10 p)))))
       else
         andThen (setReferenceCounter s6 nn (referenceCounter r)) (\<lambda>s7.
         destroy s7 p)) = Inr s'"
  using assms
  unfolding replaceWithAllocationFailure_def Let_def
  apply (simp only: andThen_eq_Inr split_paired_Ex case_prod_conv deref_def)
  apply (auto split: option.splits split del: if_split)
  done

section \<open>Records by identifier; moves as permutations\<close>

lemma indexOfIdentifier_distinct:
  "distinct (map nodeIdentifier xs) \<Longrightarrow> k < length xs \<Longrightarrow>
   indexOfIdentifier (nodeIdentifier (xs ! k)) xs = Some k"
proof (induction xs arbitrary: k)
  case Nil
  then show ?case by simp
next
  case (Cons x xs)
  show ?case
  proof (cases k)
    case 0
    then show ?thesis by simp
  next
    case (Suc j)
    with Cons.prems have j: "j < length xs" by simp
    then have "nodeIdentifier (xs ! j) \<in> nodeIdentifier ` set xs" by simp
    moreover from Cons.prems have "nodeIdentifier x \<notin> nodeIdentifier ` set xs" by simp
    ultimately have "nodeIdentifier (xs ! j) \<noteq> nodeIdentifier x" by metis
    with Cons Suc j show ?thesis by simp
  qed
qed

lemma recordOf_Some:
  "recordOf s i = Some n \<longleftrightarrow>
   (\<exists>k. node s i = Some (Arena k) \<and> k < length (buffer s) \<and> buffer s ! k = n)"
  by (auto simp: recordOf_def node_def poolNode_def split: option.splits
      dest: indexOfIdentifier_Some)

lemma recordOf_nodeAt:
  "recordOf s i = Some n \<Longrightarrow> \<exists>k. node s i = Some (Arena k) \<and> nodeAt s (Arena k) = Inr n"
  by (auto simp: recordOf_Some nodeAt_def)

lemma recordOf_identifier: "recordOf s i = Some n \<Longrightarrow> nodeIdentifier n = i"
  by (auto simp: recordOf_def dest: indexOfIdentifier_Some)

lemma recordOf_mem: "recordOf s i = Some n \<Longrightarrow> n \<in> set (buffer s)"
  by (auto simp: recordOf_def dest: indexOfIdentifier_Some)

lemma recordOf_distinct:
  assumes "distinct (map nodeIdentifier (buffer s))"
  shows "recordOf s i = Some n \<longleftrightarrow> n \<in> set (buffer s) \<and> nodeIdentifier n = i"
proof
  assume "recordOf s i = Some n"
  then show "n \<in> set (buffer s) \<and> nodeIdentifier n = i"
    by (simp add: recordOf_mem recordOf_identifier)
next
  assume "n \<in> set (buffer s) \<and> nodeIdentifier n = i"
  then obtain k where "k < length (buffer s)" and "buffer s ! k = n" and "nodeIdentifier n = i"
    by (auto simp: in_set_conv_nth)
  with indexOfIdentifier_distinct [OF assms, of k] show "recordOf s i = Some n"
    by (simp add: recordOf_def)
qed

lemma recordOf_None: "recordOf s i = None \<longleftrightarrow> i \<notin> nodeIdentifier ` set (buffer s)"
  by (simp add: recordOf_def indexOfIdentifier_None_iff)

lemma recordOf_same_set:
  assumes "distinct (map nodeIdentifier (buffer s))"
    and "distinct (map nodeIdentifier (buffer s'))"
    and "set (buffer s') = set (buffer s)"
  shows "recordOf s' i = recordOf s i"
proof (cases "recordOf s i")
  case None
  then have "recordOf s' i = None" using assms(3) by (simp add: recordOf_None)
  with None show ?thesis by simp
next
  case (Some n)
  then have "recordOf s' i = Some n" using assms by (simp add: recordOf_distinct)
  with Some show ?thesis by simp
qed

lemma updateAt_arena:
  "updateAt s (Arena k) g = Inr s' \<longleftrightarrow>
   k < length (buffer s) \<and> s' = s\<lparr>buffer := (buffer s)[k := g (buffer s ! k)]\<rparr>"
  by (auto simp: updateAt_def)

lemma update_by_identifier:
  assumes "recordOf s i = Some n" and "\<And>m. nodeIdentifier (g m) = nodeIdentifier m"
  shows "\<exists>k s'. node s i = Some (Arena k) \<and> updateAt s (Arena k) g = Inr s' \<and>
           recordOf s' = (recordOf s)(i \<mapsto> g n) \<and>
           map nodeIdentifier (buffer s') = map nodeIdentifier (buffer s) \<and>
           staticNodes s' = staticNodes s \<and> capacity s' = capacity s"
proof -
  from assms(1) obtain k where k: "node s i = Some (Arena k)" and kl: "k < length (buffer s)"
    and kn: "buffer s ! k = n"
    by (auto simp: recordOf_Some)
  let ?s = "s\<lparr>buffer := (buffer s)[k := g (buffer s ! k)]\<rparr>"
  have u: "updateAt s (Arena k) g = Inr ?s" using kl by (simp add: updateAt_arena)
  have ids: "map nodeIdentifier (buffer ?s) = map nodeIdentifier (buffer s)"
    using assms(2) by (simp add: map_nodeIdentifier_update)
  have ik: "indexOfIdentifier i (buffer s) = Some k"
    using k by (auto simp: node_def poolNode_def split: option.splits)
  have "recordOf ?s j = ((recordOf s)(i \<mapsto> g n)) j" for j
  proof (cases "j = i")
    case True
    with ik kl kn indexOfIdentifier_map [OF ids, of i] show ?thesis
      by (simp add: recordOf_def)
  next
    case False
    show ?thesis
    proof (cases "indexOfIdentifier j (buffer s)")
      case None
      with indexOfIdentifier_map [OF ids, of j] False show ?thesis
        by (simp add: recordOf_def)
    next
      case (Some m)
      from indexOfIdentifier_Some [OF Some] indexOfIdentifier_Some [OF ik] False
      have "m \<noteq> k" by auto
      with Some indexOfIdentifier_map [OF ids, of j] False show ?thesis
        by (simp add: recordOf_def)
    qed
  qed
  then have "recordOf ?s = (recordOf s)(i \<mapsto> g n)" by (rule ext)
  with k u ids show ?thesis by (intro exI [of _ k] exI [of _ ?s]) simp
qed

lemma take_drop_take: "b \<le> a \<Longrightarrow> take b xs @ drop b (take a xs) = take a xs"
proof -
  assume "b \<le> a"
  then have "take b (take a xs) = take b xs" by (simp add: min_def)
  then show ?thesis by (metis append_take_drop_id)
qed

lemma drop_take_drop: "a \<le> b \<Longrightarrow> drop a (take b xs) @ drop b xs = drop a xs"
proof -
  assume ab: "a \<le> b"
  have "drop a xs = drop a (take b xs @ drop b xs)" by simp
  also have "\<dots> = drop a (take b xs) @ drop (a - length (take b xs)) (drop b xs)"
    by (rule drop_append)
  also have "drop (a - length (take b xs)) (drop b xs) = drop b xs"
    using ab by (cases "b \<le> length xs") (simp_all add: min_def)
  finally show ?thesis by simp
qed

lemma take_drop_drop: "take l (drop a xs) @ drop (a + l) xs = drop a xs"
  by (metis append_take_drop_id drop_drop add.commute)

lemma moveRecords_before:
  "b < a \<Longrightarrow> moveRecords a l b xs =
     take b xs @ take l (drop a xs) @ drop b (take a xs) @ drop (a + l) xs"
  by (simp add: moveRecords_def)

lemma moveRecords_after:
  "a + l \<le> b \<Longrightarrow> moveRecords a l b xs =
     take a xs @ drop (a + l) (take b xs) @ take l (drop a xs) @ drop b xs"
  by (cases "b < a") (simp_all add: moveRecords_def)

lemma moveRecords_mset: "mset (moveRecords a l b xs) = mset xs"
proof -
  have whole: "mset (take a xs) + mset (drop a xs) = mset xs"
    by (metis append_take_drop_id mset_append)
  show ?thesis
  proof (cases "b < a")
    case True
    have "mset (moveRecords a l b xs) =
        mset (take b xs @ drop b (take a xs)) + mset (take l (drop a xs) @ drop (a + l) xs)"
      by (simp add: moveRecords_before [OF True])
    also have "\<dots> = mset (take a xs) + mset (drop a xs)"
      using True by (simp only: take_drop_take [of b a xs] take_drop_drop less_imp_le)
    finally show ?thesis using whole by simp
  next
    case False
    show ?thesis
    proof (cases "a + l \<le> b")
      case True
      have "mset (moveRecords a l b xs) =
          mset (take a xs) + mset (take l (drop a xs) @ (drop (a + l) (take b xs) @ drop b xs))"
        by (simp add: moveRecords_after [OF True])
      also have "\<dots> = mset (take a xs) + mset (take l (drop a xs) @ drop (a + l) xs)"
        by (simp only: drop_take_drop [OF True])
      also have "\<dots> = mset (take a xs) + mset (drop a xs)"
        by (simp only: take_drop_drop)
      finally show ?thesis using whole by simp
    next
      case F: False
      with False show ?thesis by (simp add: moveRecords_def)
    qed
  qed
qed

section \<open>The failure protocol: detaching, reclaiming and substituting\<close>

lemma move_Inr:
  assumes "move s src dst = Inr s'"
  shows "\<exists>a b l. src = Arena a \<and> dst = Arena b \<and> subtreeLength (buffer s) a = Some l \<and>
           b \<le> length (buffer s) \<and> \<not> (a < b \<and> b < a + l) \<and>
           buffer s' = moveRecords a l b (buffer s) \<and>
           staticNodes s' = staticNodes s \<and> capacity s' = capacity s"
  using assms
  by (cases src; cases dst)
     (auto simp: move_def arenaPos_def split: option.splits if_splits)

lemma move_records:
  assumes "move s src dst = Inr s'" and "distinct (map nodeIdentifier (buffer s))"
  shows "distinct (map nodeIdentifier (buffer s')) \<and> recordOf s' = recordOf s \<and>
         staticNodes s' = staticNodes s \<and> capacity s' = capacity s \<and>
         set (buffer s') = set (buffer s)"
proof -
  from move_Inr [OF assms(1)] obtain a b l where
    b: "buffer s' = moveRecords a l b (buffer s)" and st: "staticNodes s' = staticNodes s"
    and ca: "capacity s' = capacity s"
    by blast
  from b have m: "mset (buffer s') = mset (buffer s)" by (simp add: moveRecords_mset)
  then have "mset (map nodeIdentifier (buffer s')) = mset (map nodeIdentifier (buffer s))"
    by simp
  with assms(2) have d: "distinct (map nodeIdentifier (buffer s'))"
    by (metis mset_eq_imp_distinct_iff)
  from m have se: "set (buffer s') = set (buffer s)" by (rule mset_eq_setD)
  have "recordOf s' i = recordOf s i" for i
    by (rule recordOf_same_set [OF assms(2) d se])
  then have "recordOf s' = recordOf s" by (rule ext)
  with d st ca se show ?thesis by simp
qed

lemma releaseChildrenAndDestroy_Inr:
  assumes "releaseChildrenAndDestroy s p = Inr s'"
  shows "\<exists>i rest. p = Arena i \<and> i < length (buffer s) \<and>
           releaseScan 0 (nat (numberOfChildren (buffer s ! i))) (drop (Suc i) (buffer s)) = Inr rest \<and>
           buffer s' = take i (buffer s) @ rest \<and>
           staticNodes s' = staticNodes s \<and> capacity s' = capacity s"
  using assms
  by (cases p)
     (auto simp: releaseChildrenAndDestroy_def arenaPos_def andThen_eq_Inr split: if_splits)

lemma find_SomeD: "find P xs = Some x \<Longrightarrow> x \<in> set xs \<and> P x"
  by (induction xs) (auto split: if_splits)

lemma parentPosition_Some:
  assumes "parentPosition buf i = Some q"
  shows "q < i \<and> (\<exists>l. subtreeLength buf q = Some l \<and> i < q + l)"
proof -
  from assms have "q \<in> set (rev [0..<i])"
    and "(case subtreeLength buf q of Some l \<Rightarrow> i < q + l | None \<Rightarrow> False)"
    unfolding parentPosition_def by (auto dest: find_SomeD)
  then show ?thesis by (auto split: option.splits)
qed

lemma subtreeLength_childless:
  assumes "subtreeLength buf q = Some l" and "numberOfChildren (buf ! q) \<le> 0"
  shows "l = 1"
proof -
  from assms(1) obtain rest where r: "skipTrees (Suc 0) (drop q buf) = Some rest"
    and l: "l = length buf - q - length rest"
    by (auto simp: subtreeLength_def split: option.splits)
  from r obtain x xs where d: "drop q buf = x # xs" by (cases "drop q buf") auto
  then have "x = buf ! q" by (metis nth_via_drop)
  with r d assms(2) have "rest = xs" by simp
  moreover from arg_cong [OF d, of length] have "length buf - q = Suc (length xs)" by simp
  ultimately show ?thesis using l by simp
qed

lemma parent_Inr:
  assumes "parent s self = Inr (s1, p)" and "distinct (map nodeIdentifier (buffer s))"
  shows "\<exists>i. node s self = Some (Arena i) \<and> i < length (buffer s) \<and>
     (case parentPosition (buffer s) i of
        None \<Rightarrow> s1 = s \<and> p = -1
      | Some q \<Rightarrow> q < i \<and> p = nodeIdentifier (buffer s ! q) \<and>
          s1 = s\<lparr>buffer := (buffer s)[q := (buffer s ! q)
                 \<lparr>referenceCounter := referenceCounter (buffer s ! q) + 1\<rparr>]\<rparr>)"
proof -
  from assms(1) obtain n0 qo where n0: "node s self = Some n0"
    and pt: "parentTree s n0 = Inr qo" and fn: "fromNode s qo = Inr (s1, p)"
    by (cases "node s self") (auto simp: parent_def andThen_eq_Inr)
  from pt obtain i where i: "n0 = Arena i" and il: "i < length (buffer s)"
    and qo: "qo = map_option Arena (parentPosition (buffer s) i)"
    by (cases n0) (auto simp: parentTree_def arenaPos_def split: if_splits)
  show ?thesis
  proof (cases "parentPosition (buffer s) i")
    case None
    with fn qo have "s1 = s \<and> p = -1" by (simp add: fromNode_def)
    with n0 i il None show ?thesis by simp
  next
    case (Some q)
    from parentPosition_Some [OF Some] have qi: "q < i" by simp
    with il have ql: "q < length (buffer s)" by simp
    let ?P = "buffer s ! q"
    have nq: "node s (nodeIdentifier ?P) = Some (Arena q)"
      using indexOfIdentifier_distinct [OF assms(2) ql] by (simp add: node_def poolNode_def)
    have "fromNode s qo = setIdentifierAndRetain s (nodeIdentifier ?P)"
      using qo Some ql by (simp add: fromNode_def nodeAt_def)
    with fn nq ql have "p = nodeIdentifier ?P"
      and "s1 = s\<lparr>buffer := (buffer s)[q := ?P\<lparr>referenceCounter := referenceCounter ?P + 1\<rparr>]\<rparr>"
      by (auto simp: setIdentifierAndRetain_def retain_def updateAt_def)
    with n0 i il Some qi show ?thesis by simp
  qed
qed

lemma rwaf_substitute:
  assumes d: "distinct (map nodeIdentifier (buffer s))"
    and nonneg: "\<forall>n\<in>set (buffer s). 0 \<le> nodeIdentifier n"
    and st1: "parent s self = Inr (s1, p)" and st2: "node s1 self = Some n1"
    and st3: "nodeAt s1 n1 = Inr r" and st4: "failedAllocationStaticNode s1 r = Some k"
    and st5: "move s1 n1 (poolLast s1) = Inr s2"
    and st6: "(if isDefined s2 p then refDecrementNumberOfChildren s2 p else Inr s2) = Inr s3"
    and st7: "node s3 self = Some n3" and st8: "releaseChildrenAndDestroy s3 n3 = Inr s4"
    and st9: "deepCopy s4 k = Inr (s5, nn)" and st10: "rename s5 nn self = Inr s6"
  shows "\<exists>B z i. recordOf s self = Some r \<and> node s self = Some (Arena i) \<and>
           buffer s6 = B @ [z\<lparr>nodeIdentifier := self\<rparr>] \<and> nn = Arena (length B) \<and>
           z \<in> set (staticNodes s) \<and> staticNodes s6 = staticNodes s \<and>
           distinct (map nodeIdentifier (buffer s6)) \<and>
           (parentPosition (buffer s) i = None \<and> p = -1 \<or>
            (\<exists>P. parentPosition (buffer s) i \<noteq> None \<and> p \<noteq> self \<and>
                 P \<in> set (buffer s) \<and> nodeIdentifier P = p \<and> 0 < numberOfChildren P \<and>
                 recordOf s6 p = Some (P\<lparr>referenceCounter := referenceCounter P + 1,
                                         numberOfChildren := numberOfChildren P - 1\<rparr>)))"
proof -
  let ?ids = "map nodeIdentifier"
  let ?inc = "\<lambda>n. n\<lparr>referenceCounter := referenceCounter n + 1\<rparr>"
  let ?dec = "\<lambda>n. n\<lparr>numberOfChildren := numberOfChildren n - 1\<rparr>"
  define b0 where "b0 = buffer s"
  from parent_Inr [OF st1 d] obtain i where ni: "node s self = Some (Arena i)"
    and il: "i < length b0"
    and pc: "case parentPosition b0 i of
        None \<Rightarrow> s1 = s \<and> p = -1
      | Some q \<Rightarrow> q < i \<and> p = nodeIdentifier (b0 ! q) \<and>
          s1 = s\<lparr>buffer := b0[q := ?inc (b0 ! q)]\<rparr>"
    unfolding b0_def by blast
  define b1 where "b1 = buffer s1"
  have b1: "?ids b1 = ?ids b0 \<and> b1 ! i = b0 ! i \<and> staticNodes s1 = staticNodes s \<and>
            length b1 = length b0"
  proof (cases "parentPosition b0 i")
    case None
    with pc show ?thesis by (simp add: b1_def b0_def)
  next
    case (Some q)
    with pc have "q < i" and "b1 = b0[q := ?inc (b0 ! q)]" and "staticNodes s1 = staticNodes s"
      by (simp_all add: b1_def)
    then show ?thesis by (simp add: map_nodeIdentifier_update)
  qed
  from b1 d have d1: "distinct (?ids b1)" by (simp add: b0_def)
  have "node s1 self = node s self"
    unfolding node_def using b1 by (intro poolNode_cong) (simp_all add: b1_def b0_def)
  with st2 ni have n1: "n1 = Arena i" by simp
  with st3 il b1 have r: "r = b0 ! i" by (simp add: nodeAt_def b1_def)
  have rs: "recordOf s self = Some r"
    using ni il r by (auto simp: recordOf_Some b0_def)
  then have rid: "nodeIdentifier r = self" by (rule recordOf_identifier)
  \<comment> \<open>the move to the end\<close>
  from move_Inr [OF st5] n1 obtain l where sl: "subtreeLength b1 i = Some l"
    and b2: "buffer s2 = moveRecords i l (length b1) b1"
    and s2s: "staticNodes s2 = staticNodes s1"
    by (auto simp: poolLast_def b1_def)
  from sl obtain pre rest where dr: "drop i b1 = pre @ rest"
    and lp: "length pre = l"
    by (auto simp: subtreeLength_eq)
  from sl have "l \<noteq> 0"
    by (auto simp: subtreeLength_eq)
  with lp obtain x pre' where pre: "pre = x # pre'" by (cases pre) auto
  from il b1 have il1: "i < length b1" by simp
  from Cons_nth_drop_Suc [OF il1] dr pre have "x = b1 ! i" by simp
  with b1 r have x: "x = r" by simp
  define X where "X = take i b1"
  have lX: "length X = i" using il1 by (simp add: X_def)
  have whole: "b1 = X @ pre @ rest"
    using dr by (metis X_def append_take_drop_id)
  have "i + l \<le> length b1" using whole lX lp by simp
  moreover have "drop (i + l) b1 = rest" using whole lX lp by simp
  moreover have "take l (drop i b1) = pre" using dr lp by simp
  ultimately have b2': "buffer s2 = X @ rest @ pre"
    using b2 by (simp add: moveRecords_after X_def)
  from d1 whole have dw: "distinct (?ids (X @ pre @ rest))" by simp
  then have d2: "distinct (?ids (X @ rest @ pre))" by auto
  \<comment> \<open>the parent's child count\<close>
  have s3: "\<exists>X3. buffer s3 = X3 @ rest @ pre \<and> length X3 = i \<and> ?ids X3 = ?ids X \<and>
      staticNodes s3 = staticNodes s \<and>
      (parentPosition b0 i = None \<and> p = -1 \<or>
       (\<exists>q. parentPosition b0 i \<noteq> None \<and> q < i \<and> nodeIdentifier (b0 ! q) = p \<and>
          0 < numberOfChildren (b0 ! q) \<and> X3 ! q = ?dec (?inc (b0 ! q))))"
  proof (cases "parentPosition b0 i")
    case None
    with pc have "p = -1" by simp
    then have "\<not> isDefined s2 p" by (simp add: isDefined_def)
    with st6 have "s3 = s2" by simp
    with b2' lX s2s b1 \<open>p = -1\<close> None show ?thesis by simp
  next
    case (Some q)
    with pc have qi: "q < i" and p: "p = nodeIdentifier (b0 ! q)"
      and b1q: "b1 = b0[q := ?inc (b0 ! q)]"
      by (simp_all add: b1_def)
    from parentPosition_Some [OF Some] obtain lq where "subtreeLength b0 q = Some lq"
      and "i < q + lq"
      by blast
    with qi subtreeLength_childless [of b0 q lq] have ch: "0 < numberOfChildren (b0 ! q)"
      by fastforce
    from qi il have ql: "q < length b0" by simp
    then have "b0 ! q \<in> set b0" by simp
    with nonneg p have p0: "0 \<le> p" by (simp add: b0_def)
    have xq: "X ! q = ?inc (b0 ! q)"
      using qi ql b1q by (simp add: X_def)
    from qi lX have q2: "(X @ rest @ pre) ! q = X ! q" by (simp add: nth_append)
    from qi lX have ql2: "q < length (X @ rest @ pre)" by simp
    from indexOfIdentifier_distinct [OF d2 ql2] q2 xq p
    have np: "node s2 p = Some (Arena q)"
      by (simp add: node_def poolNode_def b2')
    with p0 have "isDefined s2 p" by (simp add: isDefined_def)
    with st6 np have "updateAt s2 (Arena q) ?dec = Inr s3"
      by (simp add: refDecrementNumberOfChildren_def decrementNumberOfChildren_def)
    then have "buffer s3 = (X @ rest @ pre)[q := ?dec ((X @ rest @ pre) ! q)]"
      and "staticNodes s3 = staticNodes s2"
      by (auto simp: updateAt_arena b2')
    with q2 qi lX have "buffer s3 = X[q := ?dec (X ! q)] @ rest @ pre"
      by (simp add: list_update_append)
    moreover have "?ids (X[q := ?dec (X ! q)]) = ?ids X"
      by (simp add: map_nodeIdentifier_update)
    moreover have "X[q := ?dec (X ! q)] ! q = ?dec (?inc (b0 ! q))"
      using qi lX xq by simp
    ultimately show ?thesis
      using lX s2s b1 \<open>staticNodes s3 = staticNodes s2\<close> qi p ch Some
      by (intro exI [of _ "X[q := ?dec (X ! q)]"]) auto
  qed
  then obtain X3 where b3: "buffer s3 = X3 @ rest @ pre" and lX3: "length X3 = i"
    and idX3: "?ids X3 = ?ids X" and s3s: "staticNodes s3 = staticNodes s"
    and par: "parentPosition b0 i = None \<and> p = -1 \<or>
        (\<exists>q. parentPosition b0 i \<noteq> None \<and> q < i \<and> nodeIdentifier (b0 ! q) = p \<and>
          0 < numberOfChildren (b0 ! q) \<and> X3 ! q = ?dec (?inc (b0 ! q)))"
    by blast
  from d2 idX3 have d3: "distinct (?ids (X3 @ rest @ pre))" by simp
  \<comment> \<open>destroying the node\<close>
  let ?i3 = "i + length rest"
  have "(X3 @ rest @ pre) ! ?i3 = r"
    using lX3 pre x by (simp add: nth_append)
  moreover have "?i3 < length (X3 @ rest @ pre)" using lX3 pre by simp
  ultimately have "indexOfIdentifier self (X3 @ rest @ pre) = Some ?i3"
    using indexOfIdentifier_distinct [OF d3, of ?i3] rid by simp
  with st7 b3 have n3: "n3 = Arena ?i3" by (simp add: node_def poolNode_def)
  from releaseChildrenAndDestroy_Inr [OF st8] n3 obtain rest' where
    rs': "releaseScan 0 (nat (numberOfChildren (buffer s3 ! ?i3))) (drop (Suc ?i3) (buffer s3))
            = Inr rest'"
    and b4: "buffer s4 = take ?i3 (buffer s3) @ rest'"
    and s4s: "staticNodes s4 = staticNodes s3"
    by auto
  have "drop (Suc ?i3) (buffer s3) = pre'" using b3 lX3 pre by simp
  with releaseScan_identifiers [OF rs'] dw pre
  have sub: "nodeIdentifier ` set rest' \<subseteq> nodeIdentifier ` set pre'"
    and dr': "distinct (?ids rest')"
    by auto
  define B where "B = X3 @ rest @ rest'"
  have b4': "buffer s4 = B" using b4 b3 lX3 by (simp add: B_def)
  \<comment> \<open>the sentinel\<close>
  from st4 obtain j where k: "k = Static j" and jl: "j < length (staticNodes s1)"
    by (auto simp: failedAllocationStaticNode_def dest: indexOfIdentifier_Some)
  define z where "z = staticNodes s ! j"
  from jl b1 have zs: "z \<in> set (staticNodes s)" by (simp add: z_def)
  from st9 k jl b1 s4s s3s have b5: "buffer s5 = B @ [z\<lparr>nodeIdentifier := freshIdentifier s4\<rparr>]"
    and nn: "nn = Arena (length B)" and s5s: "staticNodes s5 = staticNodes s"
    by (auto simp: deepCopy_def allocCopy_def b4' z_def split: if_splits)
  from st10 nn b5 s5s have b6: "buffer s6 = B @ [z\<lparr>nodeIdentifier := self\<rparr>]"
    and s6s: "staticNodes s6 = staticNodes s"
    by (auto simp: rename_def updateAt_arena)
  have d6: "distinct (?ids (buffer s6))"
  proof -
    from dw pre x rid have s1: "self \<notin> set (?ids X)" and s2: "self \<notin> set (?ids rest)"
      and s3: "self \<notin> set (?ids pre')"
      by auto
    from dw pre have dX: "distinct (?ids X)" and dR: "distinct (?ids rest)"
      and xr: "set (?ids X) \<inter> set (?ids rest) = {}"
      and xp: "set (?ids X) \<inter> set (?ids pre') = {}"
      and rp: "set (?ids rest) \<inter> set (?ids pre') = {}"
      by auto
    from sub have sub': "set (?ids rest') \<subseteq> set (?ids pre')" by simp
    from sub' xp have c1: "set (?ids X) \<inter> set (?ids rest') = {}" by blast
    from sub' rp have c2: "set (?ids rest) \<inter> set (?ids rest') = {}" by blast
    from sub' s3 have c3: "self \<notin> set (?ids rest')" by blast
    have "?ids (buffer s6) = ?ids X @ ?ids rest @ ?ids rest' @ [self]"
      by (simp add: b6 B_def idX3)
    moreover have "distinct (?ids X @ ?ids rest @ ?ids rest' @ [self])"
      using dX dR dr' xr c1 c2 c3 s1 s2 by (simp only: distinct_append) auto
    ultimately show ?thesis by simp
  qed
  have par6: "parentPosition (buffer s) i = None \<and> p = -1 \<or>
      (\<exists>P. parentPosition (buffer s) i \<noteq> None \<and> p \<noteq> self \<and>
           P \<in> set (buffer s) \<and> nodeIdentifier P = p \<and> 0 < numberOfChildren P \<and>
           recordOf s6 p = Some (P\<lparr>referenceCounter := referenceCounter P + 1,
                                   numberOfChildren := numberOfChildren P - 1\<rparr>))"
  proof (cases "parentPosition b0 i = None \<and> p = -1")
    case True
    then show ?thesis by (simp add: b0_def)
  next
    case False
    with par obtain q where pn: "parentPosition b0 i \<noteq> None"
      and qi: "q < i" and pq: "nodeIdentifier (b0 ! q) = p"
      and ch: "0 < numberOfChildren (b0 ! q)" and xq: "X3 ! q = ?dec (?inc (b0 ! q))"
      by blast
    from qi lX3 have "buffer s6 ! q = X3 ! q" and "q < length (buffer s6)"
      by (simp_all add: b6 B_def nth_append)
    then have "X3 ! q \<in> set (buffer s6)" by (metis nth_mem)
    with xq pq have "recordOf s6 p = Some (?dec (?inc (b0 ! q)))"
      by (simp add: recordOf_distinct [OF d6])
    moreover from qi il have "b0 ! q \<in> set (buffer s)" by (simp add: b0_def)
    moreover have "p \<noteq> self"
    proof
      assume "p = self"
      from indexOfIdentifier_distinct [OF d, of q] indexOfIdentifier_distinct [OF d, of i] qi il
      have "indexOfIdentifier (nodeIdentifier (b0 ! q)) b0 = Some q"
        and "indexOfIdentifier (nodeIdentifier (b0 ! i)) b0 = Some i"
        by (simp_all add: b0_def)
      with \<open>p = self\<close> pq rid r have "q = i" by simp
      with qi show False by simp
    qed
    ultimately show ?thesis using pq ch pn by (auto simp: b0_def)
  qed
  from rs ni b6 nn zs s6s d6 par6 show ?thesis by blast
qed

section \<open>The failure protocol: restoring the retain count and reattaching\<close>

lemma addChildAtIndex_steps:
  assumes "addChildAtIndex s self t index = Inr s'" and "node s self = Some p"
    and "nodeAt s p = Inr n" and "\<not> isAllocationFailure n"
  shows "\<exists>tp s1 p1 firstChild newChildPosition tp1 s2 p2.
     0 \<le> index \<and> index \<le> numberOfChildren n \<and>
     node s t = Some tp \<and> retain s tp = Inr s1 \<and> node s1 self = Some p1 \<and>
     nextNode s1 p1 = Inr firstChild \<and>
     walkSiblings s1 (nat index) firstChild = Inr newChildPosition \<and>
     node s1 t = Some tp1 \<and> move s1 tp1 newChildPosition = Inr s2 \<and>
     node s2 self = Some p2 \<and> incrementNumberOfChildren s2 p2 = Inr s'"
  using assms
  unfolding addChildAtIndex_def
  apply (simp only: andThen_eq_Inr deref_def assert_def)
  apply (auto simp: andThen_eq_Inr split: option.splits if_splits)
  done

lemma node_of_recordOf:
  "recordOf s i = Some n \<Longrightarrow> node s i = Some p \<Longrightarrow> \<exists>k. p = Arena k \<and> nodeAt s p = Inr n"
  by (auto simp: recordOf_Some nodeAt_def)

lemma update_via_node:
  assumes "recordOf s i = Some n" and "node s i = Some p" and "updateAt s p g = Inr s'"
    and "\<And>m. nodeIdentifier (g m) = nodeIdentifier m"
  shows "recordOf s' = (recordOf s)(i \<mapsto> g n) \<and>
         map nodeIdentifier (buffer s') = map nodeIdentifier (buffer s) \<and>
         staticNodes s' = staticNodes s \<and> capacity s' = capacity s"
  using update_by_identifier [OF assms(1), of g] assms(2-4) by auto

lemma addChildAtIndex_records:
  assumes d: "distinct (map nodeIdentifier (buffer s))"
    and ok: "addChildAtIndex s self t index = Inr s'"
    and P: "recordOf s self = Some P" and nf: "\<not> isAllocationFailure P"
    and T: "recordOf s t = Some T" and ne: "self \<noteq> t"
  shows "distinct (map nodeIdentifier (buffer s')) \<and>
         recordOf s' = (recordOf s)
           (t \<mapsto> T\<lparr>referenceCounter := referenceCounter T + 1\<rparr>,
            self \<mapsto> P\<lparr>numberOfChildren := numberOfChildren P + 1\<rparr>) \<and>
         staticNodes s' = staticNodes s"
proof -
  from recordOf_nodeAt [OF P] obtain kp where np: "node s self = Some (Arena kp)"
    and ap: "nodeAt s (Arena kp) = Inr P"
    by blast
  from addChildAtIndex_steps [OF ok np ap nf] obtain tp s1 p1 firstChild dst tp1 s2 p2 where
    nt: "node s t = Some tp" and r: "retain s tp = Inr s1"
    and nt1: "node s1 t = Some tp1" and mv: "move s1 tp1 dst = Inr s2"
    and np2: "node s2 self = Some p2" and inc: "incrementNumberOfChildren s2 p2 = Inr s'"
    by blast
  from update_via_node [OF T nt r [unfolded retain_def]]
  have r1: "recordOf s1 = (recordOf s)(t \<mapsto> T\<lparr>referenceCounter := referenceCounter T + 1\<rparr>)"
    and i1: "map nodeIdentifier (buffer s1) = map nodeIdentifier (buffer s)"
    and st1: "staticNodes s1 = staticNodes s"
    by simp_all
  from i1 d have d1: "distinct (map nodeIdentifier (buffer s1))" by simp
  from move_records [OF mv d1] have d2: "distinct (map nodeIdentifier (buffer s2))"
    and r2: "recordOf s2 = recordOf s1" and st2: "staticNodes s2 = staticNodes s1"
    by simp_all
  from r2 r1 P ne have P2: "recordOf s2 self = Some P" by simp
  from update_via_node [OF P2 np2 inc [unfolded incrementNumberOfChildren_def]]
  have r3: "recordOf s' = (recordOf s2)(self \<mapsto> P\<lparr>numberOfChildren := numberOfChildren P + 1\<rparr>)"
    and i3: "map nodeIdentifier (buffer s') = map nodeIdentifier (buffer s2)"
    and st3: "staticNodes s' = staticNodes s2"
    by simp_all
  from i3 d2 have "distinct (map nodeIdentifier (buffer s'))" by simp
  with r3 r2 r1 st3 st2 st1 show ?thesis by simp
qed

lemma destroy_records:
  assumes "0 \<le> h" and "recordOf s h = Some n" and "1 < referenceCounter n"
  shows "\<exists>s'. destroy s h = Inr s' \<and>
           recordOf s' = (recordOf s)(h \<mapsto> n\<lparr>referenceCounter := referenceCounter n - 1\<rparr>) \<and>
           map nodeIdentifier (buffer s') = map nodeIdentifier (buffer s) \<and>
           staticNodes s' = staticNodes s"
proof -
  let ?g = "\<lambda>m. m\<lparr>referenceCounter := referenceCounter m - 1\<rparr>"
  from update_by_identifier [OF assms(2), of ?g] obtain k s' where
    k: "node s h = Some (Arena k)" and u: "updateAt s (Arena k) ?g = Inr s'"
    and r: "recordOf s' = (recordOf s)(h \<mapsto> ?g n)"
    and i: "map nodeIdentifier (buffer s') = map nodeIdentifier (buffer s)"
    and st: "staticNodes s' = staticNodes s"
    by auto
  from node_of_recordOf [OF assms(2) k] have a: "nodeAt s (Arena k) = Inr n" by simp
  from recordOf_identifier [OF assms(2)] have "nodeIdentifier n = h" .
  with assms(1,3) k a u have "destroy s h = Inr s'"
    by (simp add: destroy_def release_def)
  with r i st show ?thesis by blast
qed

lemma fromNode_records:
  assumes "recordOf s i = Some n" and "node s i = Some p"
  shows "\<exists>s'. fromNode s (Some p) = Inr (s', i) \<and>
           recordOf s' = (recordOf s)(i \<mapsto> n\<lparr>referenceCounter := referenceCounter n + 1\<rparr>) \<and>
           map nodeIdentifier (buffer s') = map nodeIdentifier (buffer s) \<and>
           staticNodes s' = staticNodes s"
proof -
  let ?g = "\<lambda>m. m\<lparr>referenceCounter := referenceCounter m + 1\<rparr>"
  from node_of_recordOf [OF assms] obtain k where p: "p = Arena k" and a: "nodeAt s p = Inr n"
    by blast
  from update_by_identifier [OF assms(1), of ?g] assms(2) p obtain s' where
    u: "updateAt s p ?g = Inr s'" and r: "recordOf s' = (recordOf s)(i \<mapsto> ?g n)"
    and i: "map nodeIdentifier (buffer s') = map nodeIdentifier (buffer s)"
    and st: "staticNodes s' = staticNodes s"
    by auto
  from recordOf_identifier [OF assms(1)] have "nodeIdentifier n = i" .
  with a assms(2) u have "fromNode s (Some p) = Inr (s', i)"
    by (simp add: fromNode_def setIdentifierAndRetain_def retain_def)
  with r i st show ?thesis by blast
qed

lemma andThen_assoc:
  "andThen (andThen m f) g = andThen m (\<lambda>x. andThen (f x) g)"
  by (cases m) simp_all

text \<open>
  \<^verbatim>\<open>replaceWithAllocationFailure\<close> is \<open>substituteSentinel\<close> followed by
  \<open>restoreRetainCount\<close>.
\<close>

lemma replaceWithAllocationFailure_split:
  "replaceWithAllocationFailure s self =
     andThen (substituteSentinel s self) (\<lambda>(s6, p, nn, idx, c). restoreRetainCount s6 p nn idx c)"
  unfolding replaceWithAllocationFailure_def substituteSentinel_def restoreRetainCount_def Let_def
  by (simp add: andThen_assoc case_prod_unfold cong: if_cong)

text \<open>
  The run of the protocol, step by step: the pool \<open>s6\<close> in which the sentinel has been
  substituted under the identifier, the count that is then written, and, with a parent,
  the counts around the reattachment (the temporary handle of the call and the parent's
  edge each add one owner; the temporary handle is released after the call).
\<close>

lemma rwaf_trace:
  assumes live: "liveRecords s" and ok: "replaceWithAllocationFailure s self = Inr s'"
  shows "\<exists>r z i s6 p nn idx.
     recordOf s self = Some r \<and> node s self = Some (Arena i) \<and> z \<in> set (staticNodes s) \<and>
     substituteSentinel s self = Inr (s6, p, nn, idx, referenceCounter r) \<and>
     recordOf s6 self = Some (z\<lparr>nodeIdentifier := self\<rparr>) \<and> node s6 self = Some nn \<and>
     (isDefined s6 p \<longleftrightarrow> parentPosition (buffer s) i \<noteq> None) \<and>
     restoreRetainCount s6 p nn idx (referenceCounter r) = Inr s' \<and>
     (if isDefined s6 p then
        \<exists>s7 s8 s9 s10.
          setReferenceCounter s6 nn (referenceCounter r - 1) = Inr s7 \<and>
          recordOf s7 self =
            Some (z\<lparr>nodeIdentifier := self, referenceCounter := referenceCounter r - 1\<rparr>) \<and>
          fromNode s7 (Some nn) = Inr (s8, self) \<and>
          addChildAtIndex s8 p self idx = Inr s9 \<and>
          recordOf s9 self =
            Some (z\<lparr>nodeIdentifier := self, referenceCounter := referenceCounter r + 1\<rparr>) \<and>
          destroy s9 self = Inr s10 \<and>
          recordOf s10 self =
            Some (z\<lparr>nodeIdentifier := self, referenceCounter := referenceCounter r\<rparr>) \<and>
          destroy s10 p = Inr s'
      else setReferenceCounter s6 nn (referenceCounter r) = Inr s') \<and>
     recordOf s' self =
       Some (z\<lparr>nodeIdentifier := self, referenceCounter := referenceCounter r\<rparr>)"
proof -
  from live have d: "distinct (map nodeIdentifier (buffer s))"
    and nonneg: "\<forall>n\<in>set (buffer s). 0 \<le> nodeIdentifier n"
    and owners: "\<And>n. n \<in> set (buffer s) \<Longrightarrow> 0 < referenceCounter n"
    and childless: "\<And>n. n \<in> set (buffer s) \<Longrightarrow> isAllocationFailure n \<Longrightarrow> numberOfChildren n = 0"
    by (auto simp: liveRecords_def)
  from rwaf_steps [OF ok] obtain s1 p n1 idx r k s2 s3 n3 s4 s5 nn s6 where
    ix: "indexInParent s1 n1 = Inr idx"
    and st: "parent s self = Inr (s1, p)" "node s1 self = Some n1"
      "nodeAt s1 n1 = Inr r" "failedAllocationStaticNode s1 r = Some k"
      "move s1 n1 (poolLast s1) = Inr s2"
      "(if isDefined s2 p then refDecrementNumberOfChildren s2 p else Inr s2) = Inr s3"
      "node s3 self = Some n3" "releaseChildrenAndDestroy s3 n3 = Inr s4"
      "deepCopy s4 k = Inr (s5, nn)" "rename s5 nn self = Inr s6"
    and tail0: "(if isDefined s6 p then
         andThen (assert (0 \<le> idx)) (\<lambda>_.
         andThen (setReferenceCounter s6 nn (referenceCounter r - 1)) (\<lambda>s7.
         andThen (fromNode s7 (Some nn)) (\<lambda>(s8, t).
         andThen (addChildAtIndex s8 p t idx) (\<lambda>s9.
         andThen (destroy s9 t) (\<lambda>s10.
         destroy s10 p)))))
       else
         andThen (setReferenceCounter s6 nn (referenceCounter r)) (\<lambda>s7.
         destroy s7 p)) = Inr s'"
    by blast
  define c where "c = referenceCounter r"
  from st ix have sub: "substituteSentinel s self = Inr (s6, p, nn, idx, c)"
    by (simp add: substituteSentinel_def c_def)
  from tail0 have tail: "restoreRetainCount s6 p nn idx c = Inr s'"
    by (simp add: restoreRetainCount_def c_def)
  from rwaf_substitute [OF d nonneg st] obtain B z i where
    rs: "recordOf s self = Some r" and ni: "node s self = Some (Arena i)"
    and b6: "buffer s6 = B @ [z\<lparr>nodeIdentifier := self\<rparr>]" and nn: "nn = Arena (length B)"
    and zs: "z \<in> set (staticNodes s)" and d6: "distinct (map nodeIdentifier (buffer s6))"
    and par: "parentPosition (buffer s) i = None \<and> p = -1 \<or>
            (\<exists>P. parentPosition (buffer s) i \<noteq> None \<and> p \<noteq> self \<and>
                 P \<in> set (buffer s) \<and> nodeIdentifier P = p \<and> 0 < numberOfChildren P \<and>
                 recordOf s6 p = Some (P\<lparr>referenceCounter := referenceCounter P + 1,
                                         numberOfChildren := numberOfChildren P - 1\<rparr>))"
    by blast
  let ?Z = "z\<lparr>nodeIdentifier := self\<rparr>"
  from recordOf_mem [OF rs] owners have c0: "0 < c" by (simp add: c_def)
  from recordOf_mem [OF rs] recordOf_identifier [OF rs] nonneg have self0: "0 \<le> self" by auto
  have Z6: "recordOf s6 self = Some ?Z"
    by (simp add: recordOf_distinct [OF d6] b6)
  have "indexOfIdentifier (nodeIdentifier (buffer s6 ! length B)) (buffer s6) = Some (length B)"
    by (rule indexOfIdentifier_distinct [OF d6]) (simp add: b6)
  then have n6: "node s6 self = Some nn"
    by (simp add: b6 nn node_def poolNode_def)
  show ?thesis
  proof (cases "parentPosition (buffer s) i = None \<and> p = -1")
    case True
    then have nd: "\<not> isDefined s6 p" by (simp add: isDefined_def)
    with tail True obtain s7 where s7: "setReferenceCounter s6 nn c = Inr s7"
      and "destroy s7 (-1) = Inr s'"
      by (auto simp: restoreRetainCount_def andThen_eq_Inr)
    then have e: "s' = s7" by (simp add: destroy_def)
    with update_via_node [OF Z6 n6 s7 [unfolded setReferenceCounter_def]]
    have Z': "recordOf s' self = Some (?Z\<lparr>referenceCounter := c\<rparr>)" by simp
    from nd s7 e have
      "if isDefined s6 p then
         \<exists>s7 s8 s9 s10.
           setReferenceCounter s6 nn (c - 1) = Inr s7 \<and>
           recordOf s7 self = Some (z\<lparr>nodeIdentifier := self, referenceCounter := c - 1\<rparr>) \<and>
           fromNode s7 (Some nn) = Inr (s8, self) \<and>
           addChildAtIndex s8 p self idx = Inr s9 \<and>
           recordOf s9 self = Some (z\<lparr>nodeIdentifier := self, referenceCounter := c + 1\<rparr>) \<and>
           destroy s9 self = Inr s10 \<and>
           recordOf s10 self = Some (z\<lparr>nodeIdentifier := self, referenceCounter := c\<rparr>) \<and>
           destroy s10 p = Inr s'
       else setReferenceCounter s6 nn c = Inr s'"
      by simp
    moreover from True nd have "isDefined s6 p \<longleftrightarrow> parentPosition (buffer s) i \<noteq> None"
      by simp
    moreover from Z' have
      "recordOf s' self = Some (z\<lparr>nodeIdentifier := self, referenceCounter := c\<rparr>)"
      by simp
    ultimately show ?thesis
      using rs ni zs sub Z6 n6 tail unfolding c_def by blast
  next
    case False
    with par obtain P where pp: "parentPosition (buffer s) i \<noteq> None" and ps: "p \<noteq> self"
      and Pm: "P \<in> set (buffer s)" and Pi: "nodeIdentifier P = p" and Pc: "0 < numberOfChildren P"
      and P6: "recordOf s6 p = Some (P\<lparr>referenceCounter := referenceCounter P + 1,
                                         numberOfChildren := numberOfChildren P - 1\<rparr>)"
      by blast
    let ?P6 = "P\<lparr>referenceCounter := referenceCounter P + 1,
                  numberOfChildren := numberOfChildren P - 1\<rparr>"
    from Pm Pi nonneg have p0: "0 \<le> p" by auto
    from Pm Pc childless [of P] have Pnf: "\<not> isAllocationFailure P" by auto
    from recordOf_nodeAt [OF P6] p0 have def: "isDefined s6 p" by (auto simp: isDefined_def)
    with tail obtain s7 s8 t s9 s10 where
      s7: "setReferenceCounter s6 nn (c - 1) = Inr s7"
      and s8: "fromNode s7 (Some nn) = Inr (s8, t)"
      and s9: "addChildAtIndex s8 p t idx = Inr s9"
      and s10: "destroy s9 t = Inr s10" and s11: "destroy s10 p = Inr s'"
      by (auto simp: restoreRetainCount_def andThen_eq_Inr split: if_splits)
    \<comment> \<open>the count is set to the captured count minus one\<close>
    from update_via_node [OF Z6 n6 s7 [unfolded setReferenceCounter_def]]
    have r7: "recordOf s7 = (recordOf s6)(self \<mapsto> ?Z\<lparr>referenceCounter := c - 1\<rparr>)"
      and i7: "map nodeIdentifier (buffer s7) = map nodeIdentifier (buffer s6)"
      and st7: "staticNodes s7 = staticNodes s6"
      by simp_all
    from i7 d6 have d7: "distinct (map nodeIdentifier (buffer s7))" by simp
    have n7: "node s7 self = Some nn"
      unfolding node_def using n6 poolNode_cong [OF i7, of self] st7 by (simp add: node_def)
    \<comment> \<open>the temporary handle\<close>
    have Z7: "recordOf s7 self = Some (?Z\<lparr>referenceCounter := c - 1\<rparr>)" by (simp add: r7)
    from fromNode_records [OF Z7 n7] s8 have t: "t = self"
      and r8: "recordOf s8 = (recordOf s7)(self \<mapsto> ?Z\<lparr>referenceCounter := c\<rparr>)"
      and i8: "map nodeIdentifier (buffer s8) = map nodeIdentifier (buffer s7)"
      by auto
    from i8 d7 have d8: "distinct (map nodeIdentifier (buffer s8))" by simp
    \<comment> \<open>reattaching\<close>
    have P8: "recordOf s8 p = Some ?P6" using r8 r7 P6 ps by simp
    have Z8: "recordOf s8 self = Some (?Z\<lparr>referenceCounter := c\<rparr>)" by (simp add: r8)
    have nf8: "\<not> isAllocationFailure ?P6" using Pnf by simp
    from addChildAtIndex_records [OF d8 s9 [unfolded t] P8 nf8 Z8 ps]
    have d9: "distinct (map nodeIdentifier (buffer s9))"
      and r9: "recordOf s9 = (recordOf s8)
           (self \<mapsto> ?Z\<lparr>referenceCounter := c + 1\<rparr>,
            p \<mapsto> ?P6\<lparr>numberOfChildren := numberOfChildren ?P6 + 1\<rparr>)"
      by simp_all
    \<comment> \<open>the temporary handle and the handle on the parent go away\<close>
    have Z9: "recordOf s9 self = Some (?Z\<lparr>referenceCounter := c + 1\<rparr>)"
      using r9 ps by simp
    from destroy_records [OF self0 Z9] c0 s10 [unfolded t]
    have r10: "recordOf s10 = (recordOf s9)(self \<mapsto> ?Z\<lparr>referenceCounter := c\<rparr>)"
      by auto
    have P10: "recordOf s10 p = Some (?P6\<lparr>numberOfChildren := numberOfChildren ?P6 + 1\<rparr>)"
      using r10 r9 ps by simp
    from destroy_records [OF p0 P10] owners [OF Pm] s11
    have "recordOf s' = (recordOf s10)
        (p \<mapsto> ?P6\<lparr>numberOfChildren := numberOfChildren ?P6 + 1,
                  referenceCounter := referenceCounter ?P6 - 1\<rparr>)"
      by auto
    with r10 ps have "recordOf s' self = Some (?Z\<lparr>referenceCounter := c\<rparr>)" by simp
    then have Z': "recordOf s' self = Some (z\<lparr>nodeIdentifier := self, referenceCounter := c\<rparr>)"
      by simp
    from Z7 have Z7': "recordOf s7 self =
        Some (z\<lparr>nodeIdentifier := self, referenceCounter := c - 1\<rparr>)"
      by simp
    from Z9 have Z9': "recordOf s9 self =
        Some (z\<lparr>nodeIdentifier := self, referenceCounter := c + 1\<rparr>)"
      by simp
    from r10 have Z10': "recordOf s10 self =
        Some (z\<lparr>nodeIdentifier := self, referenceCounter := c\<rparr>)"
      by simp
    from s7 Z7' s8 s9 Z9' s10 Z10' s11 have
      "\<exists>s7 s8 s9 s10.
           setReferenceCounter s6 nn (c - 1) = Inr s7 \<and>
           recordOf s7 self = Some (z\<lparr>nodeIdentifier := self, referenceCounter := c - 1\<rparr>) \<and>
           fromNode s7 (Some nn) = Inr (s8, self) \<and>
           addChildAtIndex s8 p self idx = Inr s9 \<and>
           recordOf s9 self = Some (z\<lparr>nodeIdentifier := self, referenceCounter := c + 1\<rparr>) \<and>
           destroy s9 self = Inr s10 \<and>
           recordOf s10 self = Some (z\<lparr>nodeIdentifier := self, referenceCounter := c\<rparr>) \<and>
           destroy s10 p = Inr s'"
      unfolding t by blast
    with def have
      "if isDefined s6 p then
         \<exists>s7 s8 s9 s10.
           setReferenceCounter s6 nn (c - 1) = Inr s7 \<and>
           recordOf s7 self = Some (z\<lparr>nodeIdentifier := self, referenceCounter := c - 1\<rparr>) \<and>
           fromNode s7 (Some nn) = Inr (s8, self) \<and>
           addChildAtIndex s8 p self idx = Inr s9 \<and>
           recordOf s9 self = Some (z\<lparr>nodeIdentifier := self, referenceCounter := c + 1\<rparr>) \<and>
           destroy s9 self = Inr s10 \<and>
           recordOf s10 self = Some (z\<lparr>nodeIdentifier := self, referenceCounter := c\<rparr>) \<and>
           destroy s10 p = Inr s'
       else setReferenceCounter s6 nn c = Inr s'"
      by simp
    moreover from def pp have "isDefined s6 p \<longleftrightarrow> parentPosition (buffer s) i \<noteq> None"
      by simp
    ultimately show ?thesis
      using rs ni zs sub Z6 n6 tail Z' unfolding c_def by blast
  qed
qed

lemma rwaf_result:
  assumes live: "liveRecords s" and ok: "replaceWithAllocationFailure s self = Inr s'"
  shows "\<exists>r z i s6 p nn idx.
     recordOf s self = Some r \<and> node s self = Some (Arena i) \<and> z \<in> set (staticNodes s) \<and>
     recordOf s6 self = Some (z\<lparr>nodeIdentifier := self\<rparr>) \<and> node s6 self = Some nn \<and>
     (isDefined s6 p \<longleftrightarrow> parentPosition (buffer s) i \<noteq> None) \<and>
     restoreRetainCount s6 p nn idx (referenceCounter r) = Inr s' \<and>
     recordOf s' self =
       Some (z\<lparr>nodeIdentifier := self, referenceCounter := referenceCounter r\<rparr>)"
proof -
  from rwaf_trace [OF assms] obtain r z i s6 p nn idx where
    "recordOf s self = Some r" "node s self = Some (Arena i)" "z \<in> set (staticNodes s)"
    "recordOf s6 self = Some (z\<lparr>nodeIdentifier := self\<rparr>)" "node s6 self = Some nn"
    "isDefined s6 p \<longleftrightarrow> parentPosition (buffer s) i \<noteq> None"
    "restoreRetainCount s6 p nn idx (referenceCounter r) = Inr s'"
    "recordOf s' self =
       Some (z\<lparr>nodeIdentifier := self, referenceCounter := referenceCounter r\<rparr>)"
    by (elim exE conjE)
  then show ?thesis by blast
qed

section \<open>Adding a child\<close>

lemma subtreeLength_children_cong:
  assumes "map numberOfChildren xs = map numberOfChildren ys"
  shows "subtreeLength xs k = subtreeLength ys k"
proof -
  from assms have len: "length xs = length ys" by (rule map_eq_imp_length_eq)
  from assms have "map numberOfChildren (drop k xs) = map numberOfChildren (drop k ys)"
    by (simp add: drop_map [symmetric])
  from skipTrees_children_cong [OF this, of "Suc 0"] len show ?thesis
    by (cases "skipTrees (Suc 0) (drop k xs)"; cases "skipTrees (Suc 0) (drop k ys)")
       (simp_all add: subtreeLength_def)
qed

lemma skipTrees_Suc:
  "skipTrees (Suc k) xs = Some rest \<Longrightarrow>
   \<exists>mid. skipTrees (Suc 0) xs = Some mid \<and> skipTrees k mid = Some rest"
  using skipTrees_add [of "Suc 0" k xs]
  by (cases "skipTrees (Suc 0) xs") (simp_all del: skipTrees.simps)

lemma walkSiblings_skipTrees:
  assumes "pos \<le> length (buffer s)" and "skipTrees k (drop pos (buffer s)) = Some rest"
  shows "walkSiblings s k (Arena pos) = Inr (Arena (length (buffer s) - length rest))"
  using assms
proof (induction k arbitrary: pos)
  case 0
  from "0.prems"(2) have "rest = drop pos (buffer s)" by simp
  with "0.prems"(1) show ?case by simp
next
  case (Suc k)
  from skipTrees_Suc [OF Suc.prems(2)] obtain mid where
    m: "skipTrees (Suc 0) (drop pos (buffer s)) = Some mid" and r: "skipTrees k mid = Some rest"
    by blast
  from skipTrees_suffix [OF m] obtain pre where p: "drop pos (buffer s) = pre @ mid"
    by blast
  let ?l = "length (buffer s) - pos - length mid"
  from arg_cong [OF p, of length] have lp: "length pre = ?l" by simp
  from arg_cong [OF p, of length] Suc.prems(1)
  have pl: "pos + ?l = length (buffer s) - length mid" and le: "pos + ?l \<le> length (buffer s)"
    by simp_all
  have "drop (pos + ?l) (buffer s) = drop ?l (drop pos (buffer s))"
    by (simp add: add.commute)
  also have "\<dots> = mid" using p lp by simp
  finally have dm: "drop (pos + ?l) (buffer s) = mid" .
  have ns: "nextSibling s (Arena pos) = Inr (Arena (pos + ?l))"
    using m by (simp add: nextSibling_def arenaPos_def subtreeLength_def)
  from Suc.IH [OF le] r dm
  have "walkSiblings s k (Arena (pos + ?l)) = Inr (Arena (length (buffer s) - length rest))"
    by simp
  with ns show ?case by simp
qed

lemma moveRecords_app_before:
  "moveRecords (length X + length M) (length S) (length X) (X @ M @ S @ R) = X @ S @ M @ R"
proof (cases "M = []")
  case True
  then show ?thesis by (cases "S = []") (simp_all add: moveRecords_def)
next
  case False
  then have lt: "length X < length X + length M" by simp
  show ?thesis by (simp add: moveRecords_before [OF lt])
qed

lemma moveRecords_app_after:
  "moveRecords (length X) (length S) (length X + length S + length M) (X @ S @ M @ R)
     = X @ M @ S @ R"
proof -
  have le: "length X + length S \<le> length X + length S + length M" by simp
  show ?thesis by (simp add: moveRecords_after [OF le])
qed


lemma split_at: "n \<le> length xs \<Longrightarrow> \<exists>as bs. xs = as @ bs \<and> length as = n"
  by (intro exI [of _ "take n xs"] exI [of _ "drop n xs"]) simp

lemma subtreeLength_drop:
  assumes "subtreeLength buf k = Some l" and "buf = X @ Y" and "length X = k"
  shows "\<exists>S R. Y = S @ R \<and> length S = l \<and> S \<noteq> [] \<and> skipTrees (Suc 0) S = Some []"
proof -
  from assms(1) obtain S R where "drop k buf = S @ R" and "skipTrees (Suc 0) S = Some []"
    and "length S = l"
    by (auto simp: subtreeLength_eq)
  moreover from this have "S \<noteq> []" by auto
  moreover from assms(2,3) have "drop k buf = Y" by simp
  ultimately show ?thesis by auto
qed

lemma addChildAtIndex_layout:
  assumes d: "distinct (map nodeIdentifier (buffer s))"
    and ns: "node s self = Some (Arena i)" and aP: "nodeAt s (Arena i) = Inr P"
    and nf: "\<not> isAllocationFailure P"
    and i0: "0 \<le> index" and i1: "index \<le> numberOfChildren P"
    and sL: "subtreeLength (buffer s) i = Some L"
    and nc: "node s c = Some (Arena j)" and aT: "nodeAt s (Arena j) = Inr T"
    and sl: "subtreeLength (buffer s) j = Some l"
    and disj: "j + l \<le> i \<or> i + L \<le> j"
  shows "\<exists>s1 dst s2 s' A K S' Z.
      retain s (Arena j) = Inr s1 \<and> walkSiblings s1 (nat index) (Arena (Suc i)) = Inr dst \<and>
      move s1 (Arena j) dst = Inr s2 \<and> refIncrementNumberOfChildren s2 self = Inr s' \<and>
      addChildAtIndex s self c index = Inr s' \<and>
      buffer s' = A @ [P\<lparr>numberOfChildren := numberOfChildren P + 1\<rparr>] @ K @
                  (T\<lparr>referenceCounter := referenceCounter T + 1\<rparr> # S') @ Z \<and>
      skipTrees (nat index) K = Some [] \<and> distinct (map nodeIdentifier (buffer s'))"
proof -
  let ?ids = "map nodeIdentifier"
  let ?T = "T\<lparr>referenceCounter := referenceCounter T + 1\<rparr>"
  let ?P = "P\<lparr>numberOfChildren := numberOfChildren P + 1\<rparr>"
  define b where "b = buffer s"
  from aP have il: "i < length b" and bi: "b ! i = P"
    by (auto simp: nodeAt_def b_def split: if_splits)
  from aT have jl: "j < length b" and bj: "b ! j = T"
    by (auto simp: nodeAt_def b_def split: if_splits)
  from poolNode_nodeAt [OF ns [unfolded node_def]] aP have Pid: "nodeIdentifier P = self" by simp
  from sL sl have L1: "0 < L" and l1: "0 < l" by (auto simp: subtreeLength_eq)
  with disj have ij: "i \<noteq> j" by auto
  \<comment> \<open>retaining the child\<close>
  define b1 where "b1 = b[j := ?T]"
  define s1 where "s1 = s\<lparr>buffer := b1\<rparr>"
  have r1: "retain s (Arena j) = Inr s1"
    using jl bj by (simp add: retain_def updateAt_def s1_def b1_def b_def)
  have ids1: "?ids b1 = ?ids b"
    unfolding b1_def using bj map_nodeIdentifier_update [of "\<lambda>n. ?T" b j] by simp
  have ch1: "map numberOfChildren b1 = map numberOfChildren b"
    unfolding b1_def using bj jl by (simp add: map_update list_update_same_conv)
  have len1: "length b1 = length b" by (simp add: b1_def)
  have b1i: "b1 ! i = P" and b1j: "b1 ! j = ?T" using ij bi jl by (simp_all add: b1_def)
  from ids1 d have d1: "distinct (?ids b1)" by (simp add: b_def)
  have sL1: "subtreeLength b1 i = Some L" and sl1: "subtreeLength b1 j = Some l"
    using sL sl subtreeLength_children_cong [OF ch1] by (simp_all add: b_def)
  have nodes1: "node s1 h = node s h" for h
    unfolding node_def by (rule poolNode_cong) (simp_all add: s1_def ids1 b_def)
  have bs1: "buffer s1 = b1" by (simp add: s1_def)
  \<comment> \<open>the insertion position\<close>
  from Cons_nth_drop_Suc [of i b1] il len1 b1i have di: "drop i b1 = P # drop (Suc i) b1"
    by simp
  from sL1 obtain restL where "skipTrees (Suc 0) (drop i b1) = Some restL"
    by (auto simp: subtreeLength_def split: option.splits)
  with di have all: "skipTrees (nat (numberOfChildren P)) (drop (Suc i) b1) = Some restL"
    by simp
  from i0 i1 have "nat (numberOfChildren P) = nat index + (nat (numberOfChildren P) - nat index)"
    by simp
  with all skipTrees_add [of "nat index" "nat (numberOfChildren P) - nat index" "drop (Suc i) b1"]
  obtain rest3 where w3: "skipTrees (nat index) (drop (Suc i) b1) = Some rest3"
    and w4: "skipTrees (nat (numberOfChildren P) - nat index) rest3 = Some restL"
    by (cases "skipTrees (nat index) (drop (Suc i) b1)") auto
  from skipTrees_suffix [OF w3] obtain K where dK: "drop (Suc i) b1 = K @ rest3"
    and K: "skipTrees (nat index) K = Some []"
    by blast
  define A where "A = take i b1"
  have lA: "length A = i" using il len1 by (simp add: A_def)
  have whole: "b1 = A @ [P] @ K @ rest3"
    using di dK by (metis A_def append_Cons append_Nil append_take_drop_id)
  define dd where "dd = Suc i + length K"
  have ddl: "dd \<le> length b1" unfolding dd_def using whole lA by simp
  have "length b1 - length rest3 = dd" unfolding dd_def using whole lA by simp
  with walkSiblings_skipTrees [of "Suc i" s1 "nat index" rest3] w3 il len1
  have w: "walkSiblings s1 (nat index) (Arena (Suc i)) = Inr (Arena dd)"
    by (simp add: bs1)
  have ddL: "dd \<le> i + L"
  proof -
    from skipTrees_suffix [OF w4] obtain K2 where "rest3 = K2 @ restL" by blast
    moreover from sL1 \<open>skipTrees (Suc 0) (drop i b1) = Some restL\<close>
    have "L = length b1 - i - length restL" by (simp add: subtreeLength_def)
    ultimately show ?thesis unfolding dd_def using whole lA by simp
  qed
  \<comment> \<open>the move and the new child count, by the side on which the child lies\<close>
  have "\<exists>s2 s' A' S' Z.
      move s1 (Arena j) (Arena dd) = Inr s2 \<and> refIncrementNumberOfChildren s2 self = Inr s' \<and>
      buffer s' = A' @ [?P] @ K @ (?T # S') @ Z"
  proof (cases "i + L \<le> j")
    case True
    with ddL have dj: "dd \<le> j" by simp
    with jl len1 whole lA have "j - dd \<le> length rest3" by (simp add: dd_def)
    from split_at [OF this] obtain M R1 where r3: "rest3 = M @ R1" and lM: "length M = j - dd"
      by blast
    let ?X = "A @ [P] @ K"
    have lX: "length ?X = dd" by (simp add: dd_def lA)
    have w2: "b1 = (?X @ M) @ R1" using whole r3 by simp
    have "length (?X @ M) = j" using lX lM dj by simp
    from subtreeLength_drop [OF sl1 w2 this] obtain S R where R1: "R1 = S @ R"
      and lS: "length S = l" and Sn: "S \<noteq> []"
      by blast
    have w3': "b1 = ?X @ M @ S @ R" using w2 R1 by simp
    have jX: "j = length ?X + length M" using lX lM dj by simp
    have "b1 ! j = hd S" using Sn unfolding jX w3'
      by (cases S) (simp_all add: nth_append)
    with b1j Sn obtain S' where S: "S = ?T # S'" by (cases S) auto
    have mr: "moveRecords j l dd b1 = ?X @ S @ M @ R"
      using moveRecords_app_before [of ?X M S R] jX lS lX w3' by simp
    define s2 where "s2 = s1\<lparr>buffer := ?X @ S @ M @ R\<rparr>"
    have mv: "move s1 (Arena j) (Arena dd) = Inr s2"
      using sl1 ddl dj mr by (simp add: move_def arenaPos_def bs1 s2_def)
    from move_records [OF mv] d1 have d2: "distinct (?ids (buffer s2))" by (simp add: bs1)
    have "buffer s2 ! i = P" and i2: "i < length (buffer s2)"
      using lA by (simp_all add: s2_def nth_append)
    with indexOfIdentifier_distinct [OF d2 i2] Pid
    have n2: "node s2 self = Some (Arena i)" by (simp add: node_def poolNode_def)
    define s' where "s' = s2\<lparr>buffer := A @ [?P] @ K @ (?T # S') @ (M @ R)\<rparr>"
    have "(buffer s2)[i := ?P] = A @ [?P] @ K @ (?T # S') @ (M @ R)"
      using lA S by (simp add: s2_def list_update_append)
    with n2 i2 \<open>buffer s2 ! i = P\<close>
    have "refIncrementNumberOfChildren s2 self = Inr s'"
      by (simp add: refIncrementNumberOfChildren_def incrementNumberOfChildren_def
          updateAt_def s'_def)
    with mv show ?thesis
      by (intro exI [of _ s2] exI [of _ s'] exI [of _ A] exI [of _ S'] exI [of _ "M @ R"])
         (simp add: s'_def)
  next
    case False
    with disj have ji: "j + l \<le> i" by simp
    from jl len1 have "j \<le> length b1" by simp
    from split_at [OF this] obtain X0 R1 where w1: "b1 = X0 @ R1" and lX0: "length X0 = j"
      by blast
    from subtreeLength_drop [OF sl1 w1 lX0] obtain S R0 where R1: "R1 = S @ R0"
      and lS: "length S = l" and Sn: "S \<noteq> []"
      by blast
    have "b1 ! j = hd S" using Sn lX0 unfolding w1 R1
      by (cases S) (simp_all add: nth_append)
    with b1j Sn obtain S' where S: "S = ?T # S'" by (cases S) auto
    from ji il len1 w1 R1 lX0 lS have "i - j - l \<le> length R0" by simp
    from split_at [OF this] obtain M R2 where R0: "R0 = M @ R2" and lM: "length M = i - j - l"
      by blast
    have w2: "b1 = (X0 @ S @ M) @ R2" using w1 R1 R0 by simp
    have lpre: "length (X0 @ S @ M) = i" using lX0 lS lM ji by simp
    from arg_cong [OF w2, of "drop i"] lpre have "drop i b1 = R2" by simp
    with di dK have R2: "R2 = [P] @ K @ rest3" by simp
    let ?M = "M @ [P] @ K"
    have w3': "b1 = X0 @ S @ ?M @ rest3" using w2 R2 by simp
    have ddX: "dd = length X0 + length S + length ?M"
      using lpre by (simp add: dd_def)
    have mr: "moveRecords j l dd b1 = X0 @ ?M @ S @ rest3"
      using moveRecords_app_after [of X0 S ?M rest3] lX0 lS ddX w3' by simp
    define s2 where "s2 = s1\<lparr>buffer := X0 @ ?M @ S @ rest3\<rparr>"
    have "\<not> (j < dd \<and> dd < j + l)" using ddX lX0 lS by simp
    then have mv: "move s1 (Arena j) (Arena dd) = Inr s2"
      using sl1 ddl mr by (simp add: move_def arenaPos_def bs1 s2_def)
    from move_records [OF mv] d1 have d2: "distinct (?ids (buffer s2))" by (simp add: bs1)
    let ?i2 = "length (X0 @ M)"
    have P2: "buffer s2 ! ?i2 = P" and i2: "?i2 < length (buffer s2)"
      by (simp_all add: s2_def nth_append)
    from indexOfIdentifier_distinct [OF d2 i2] P2 Pid
    have n2: "node s2 self = Some (Arena ?i2)" by (simp add: node_def poolNode_def)
    define s' where "s' = s2\<lparr>buffer := (X0 @ M) @ [?P] @ K @ (?T # S') @ rest3\<rparr>"
    have "(buffer s2)[?i2 := ?P] = (X0 @ M) @ [?P] @ K @ (?T # S') @ rest3"
      using S by (simp add: s2_def list_update_append)
    with n2 i2 P2 have "refIncrementNumberOfChildren s2 self = Inr s'"
      by (simp add: refIncrementNumberOfChildren_def incrementNumberOfChildren_def
          updateAt_def s'_def del: append_assoc)
    with mv show ?thesis
      by (intro exI [of _ s2] exI [of _ s'] exI [of _ "X0 @ M"] exI [of _ S'] exI [of _ rest3])
         (simp add: s'_def)
  qed
  then obtain s2 s' A' S' Z where mv: "move s1 (Arena j) (Arena dd) = Inr s2"
    and inc: "refIncrementNumberOfChildren s2 self = Inr s'"
    and b': "buffer s' = A' @ [?P] @ K @ (?T # S') @ Z"
    by blast
  \<comment> \<open>the records are those of the pool, with the two counters changed\<close>
  from move_records [OF mv] d1 have d2: "distinct (?ids (buffer s2))" by (simp add: bs1)
  from inc obtain p2 where "node s2 self = Some p2" and "incrementNumberOfChildren s2 p2 = Inr s'"
    by (cases "node s2 self") (auto simp: refIncrementNumberOfChildren_def)
  then have "?ids (buffer s') = ?ids (buffer s2)"
    using updateAt_map [of s2 p2 _ s' nodeIdentifier]
    by (simp add: incrementNumberOfChildren_def)
  with d2 have d': "distinct (?ids (buffer s'))" by simp
  have "addChildAtIndex s self c index = Inr s'"
    using ns aP nf i0 i1 nc r1 nodes1 il len1 w mv inc
    by (simp add: addChildAtIndex_def nextNode_def arenaPos_def bs1
        refIncrementNumberOfChildren_def)
  with r1 w mv inc b' K d' show ?thesis by blast
qed




text \<open>
  A handle on a canonical static sentinel, as \<open>clone\<close> of a failure sentinel returns it,
  resolves outside the arena.  \<^verbatim>\<open>addChildAtIndex\<close> has no case for it and passes its
  node to the arena's move, which relocates records of the arena only: on the tree 0(1)
  with the canonical sentinel 100 as the new child, no pool is returned.
\<close>

lemma addChildAtIndex_static_sentinel_child:
  "handleOf (clone (poolWith [plainNode 0 1 1, plainNode 1 0 1, sentinelNode 7 1]) 7) = Inr 100 \<and>
   node (poolWith [plainNode 0 1 1, plainNode 1 0 1, sentinelNode 7 1]) 100 = Some (Static 0) \<and>
   addChildAtIndex (poolWith [plainNode 0 1 1, plainNode 1 0 1, sentinelNode 7 1]) 0 100 1
     = Inl NotInArena"
  by code_simp

section \<open>The failure protocol runs to its end on a well-formed pool\<close>

lemma skipTrees_add_Some:
  assumes "skipTrees (j + k) xs = Some r"
  shows "\<exists>m. skipTrees j xs = Some m \<and> skipTrees k m = Some r"
  using assms skipTrees_add [of j k xs] by (cases "skipTrees j xs") simp_all

lemma skipTrees_consumes:
  "skipTrees k xs = Some rest \<Longrightarrow> length rest + k \<le> length xs"
  using skipTrees_suffix [of k xs rest] by auto

lemma nested_subtree:
  "skipTrees k xs = Some [] \<Longrightarrow> i < length xs \<Longrightarrow> \<exists>l. subtreeLength xs i = Some l"
proof (induction k xs arbitrary: i rule: skipTrees.induct)
  case (1 xs)
  then show ?case by simp
next
  case (2 k)
  then show ?case by simp
next
  case (3 k x xs)
  from "3.prems"(1) have all: "skipTrees (k + nat (numberOfChildren x)) xs = Some []" by simp
  show ?case
  proof (cases i)
    case 0
    from all have "skipTrees (nat (numberOfChildren x) + k) xs = Some []"
      by (simp add: add.commute)
    from skipTrees_add_Some [OF this] obtain m where
      "skipTrees (nat (numberOfChildren x)) xs = Some m"
      by blast
    with 0 show ?thesis by (simp add: subtreeLength_def)
  next
    case (Suc i')
    with "3.prems"(2) have "i' < length xs" by simp
    from "3.IH" [OF all this] obtain l where "subtreeLength xs i' = Some l" by blast
    with Suc show ?thesis by (auto simp: subtreeLength_def split: option.splits)
  qed
qed

lemma tree_of_position:
  "skipTrees k xs = Some rest \<Longrightarrow> n + length rest < length xs \<Longrightarrow>
   \<exists>m mid l. m < k \<and> skipTrees m xs = Some mid \<and> skipTrees (Suc 0) mid = Some (drop l mid) \<and>
     l \<le> length mid \<and> length xs - length mid \<le> n \<and> n < length xs - length mid + l"
proof (induction k arbitrary: xs n)
  case 0
  then show ?case by simp
next
  case (Suc k)
  from skipTrees_Suc [OF Suc.prems(1)] obtain mid1 where
    m1: "skipTrees (Suc 0) xs = Some mid1" and r: "skipTrees k mid1 = Some rest"
    by blast
  from skipTrees_suffix [OF m1] obtain pre where xs: "xs = pre @ mid1" by blast
  show ?case
  proof (cases "n < length pre")
    case True
    have "skipTrees 0 xs = Some xs" by simp
    moreover have "skipTrees (Suc 0) xs = Some (drop (length pre) xs)" using m1 xs by simp
    moreover have "length pre \<le> length xs" using xs by simp
    ultimately show ?thesis using True
      by (intro exI [of _ 0] exI [of _ xs] exI [of _ "length pre"]) simp
  next
    case False
    define n' where "n' = n - length pre"
    from False Suc.prems(2) xs have "n' + length rest < length mid1" by (simp add: n'_def)
    from Suc.IH [OF r this] obtain m mid l where mk: "m < k"
      and sm: "skipTrees m mid1 = Some mid" and s1: "skipTrees (Suc 0) mid = Some (drop l mid)"
      and ll: "l \<le> length mid"
      and lo: "length mid1 - length mid \<le> n'" and hi: "n' < length mid1 - length mid + l"
      by blast
    from skipTrees_add [of "Suc 0" m xs] m1 sm have "skipTrees (Suc m) xs = Some mid"
      by (simp del: skipTrees.simps)
    moreover from skipTrees_consumes [OF sm] have "length mid \<le> length mid1" by simp
    with lo hi False xs have "length xs - length mid \<le> n" "n < length xs - length mid + l"
      by (simp_all add: n'_def)
    ultimately show ?thesis using mk s1 ll
      by (intro exI [of _ "Suc m"] exI [of _ mid] exI [of _ l]) simp
  qed
qed

lemma find_rev_upt:
  "find P (rev [0..<i]) = Some q \<Longrightarrow> q < i \<and> P q \<and> (\<forall>q'. q < q' \<and> q' < i \<longrightarrow> \<not> P q')"
proof (induction i)
  case 0
  then show ?case by simp
next
  case (Suc i)
  show ?case
  proof (cases "P i")
    case True
    with Suc.prems have "q = i" by simp
    with True show ?thesis by auto
  next
    case False
    with Suc.prems have "find P (rev [0..<i]) = Some q" by simp
    from Suc.IH [OF this] False show ?thesis
      by (auto simp: less_Suc_eq)
  qed
qed

lemma indexOfChildWalk_found:
  "skipTrees m (drop cur buf) = Some (drop target buf) \<Longrightarrow> cur \<le> length buf \<Longrightarrow>
   target \<le> length buf \<Longrightarrow> m < n \<Longrightarrow> indexOfChildWalk buf n cur target = int m"
proof (induction m arbitrary: cur n)
  case 0
  from "0.prems"(1) have "length (drop cur buf) = length (drop target buf)" by simp
  with "0.prems"(2,3) have "cur = target" by simp
  with "0.prems"(4) show ?case by (cases n) simp_all
next
  case (Suc m)
  from skipTrees_Suc [OF Suc.prems(1)] obtain mid1 where
    m1: "skipTrees (Suc 0) (drop cur buf) = Some mid1"
    and r: "skipTrees m mid1 = Some (drop target buf)"
    by blast
  from skipTrees_suffix [OF m1] obtain pre where p: "drop cur buf = pre @ mid1"
    and pl: "Suc 0 \<le> length pre"
    by blast
  define l where "l = length buf - cur - length mid1"
  from arg_cong [OF p, of length] have lp: "length pre = l" by (simp add: l_def)
  have sl: "subtreeLength buf cur = Some l" using m1 by (simp add: subtreeLength_def l_def)
  from arg_cong [OF p, of length] Suc.prems(2) lp have cl: "cur + l \<le> length buf" by simp
  have "drop (cur + l) buf = drop l (drop cur buf)" by (simp add: add.commute)
  with p lp have dm: "drop (cur + l) buf = mid1" by simp
  from skipTrees_consumes [OF r] have "length (drop target buf) \<le> length mid1" by simp
  with dm Suc.prems(3) cl have tl: "cur + l \<le> target"
    by (metis diff_le_mono2 length_drop diff_diff_cancel)
  with pl lp have ne: "cur \<noteq> target" by simp
  from Suc.prems(4) obtain n' where n: "n = Suc n'" and mn: "m < n'" by (cases n) auto
  from Suc.IH [OF _ cl Suc.prems(3) mn] r dm
  have "indexOfChildWalk buf n' (cur + l) target = int m" by simp
  with n ne sl show ?case by simp
qed

lemma releaseScan_succeeds:
  "skipTrees (keep + rel) xs = Some [] \<Longrightarrow> \<forall>x\<in>set xs. 0 < referenceCounter x \<Longrightarrow>
   \<exists>ys. releaseScan keep rel xs = Inr ys \<and>
        sum_list (map nodeSize ys) \<le> sum_list (map nodeSize xs)"
proof (induction keep rel xs rule: releaseScan.induct)
  case (1 keep rel)
  then show ?case by (cases "keep + rel") simp_all
next
  case (2 keep rel x xs)
  let ?c = "nat (numberOfChildren x)"
  from "2.prems"(1) obtain j where j: "keep + rel = Suc j"
    by (cases "keep + rel") simp_all
  with "2.prems"(1) have all: "skipTrees (j + ?c) xs = Some []" by simp
  from "2.prems"(2) have pos: "\<forall>y\<in>set xs. 0 < referenceCounter y" and px: "0 < referenceCounter x"
    by simp_all
  show ?case
  proof (cases "0 < keep")
    case True
    with j have e: "keep - 1 + ?c + rel = j + ?c" by simp
    from all have "skipTrees (keep - 1 + ?c + rel) xs = Some []" by (simp only: e)
    from "2.IH"(1) [OF True this pos] True show ?thesis by auto
  next
    case False
    with j have r: "0 < rel" and jr: "j = rel - 1" by simp_all
    have nle: "\<not> referenceCounter x \<le> 0" using px by simp
    show ?thesis
    proof (cases "referenceCounter x - 1 = 0")
      case True
      from jr have e: "0 + (rel - 1 + ?c) = j + ?c" by simp
      from all have "skipTrees (0 + (rel - 1 + ?c)) xs = Some []" by (simp only: e)
      from "2.IH"(2) [OF False r nle True this pos] False r nle True show ?thesis by auto
    next
      case F: False
      from jr have e: "?c + (rel - 1) = j + ?c" by simp
      from all have "skipTrees (?c + (rel - 1)) xs = Some []" by (simp only: e)
      from "2.IH"(3) [OF False r nle F this pos] False r nle F show ?thesis by auto
    qed
  qed
qed

lemma parentPosition_children_cong:
  assumes "map numberOfChildren xs = map numberOfChildren ys"
  shows "parentPosition xs i = parentPosition ys i"
proof -
  have "subtreeLength xs = subtreeLength ys"
    using subtreeLength_children_cong [OF assms] by (intro ext)
  then show ?thesis by (simp add: parentPosition_def)
qed

lemma parent_boundary:
  assumes pp: "parentPosition buf i = Some q" and nested: "skipTrees k0 buf = Some []"
    and il: "i < length buf"
  shows "\<exists>m. m < nat (numberOfChildren (buf ! q)) \<and>
           skipTrees m (drop (Suc q) buf) = Some (drop i buf)"
proof -
  let ?P = "\<lambda>q. case subtreeLength buf q of Some l \<Rightarrow> i < q + l | None \<Rightarrow> False"
  from pp have "find ?P (rev [0..<i]) = Some q" by (simp add: parentPosition_def)
  from find_rev_upt [OF this] have qi: "q < i" and Pq: "?P q"
    and nearest: "\<And>q'. q < q' \<Longrightarrow> q' < i \<Longrightarrow> \<not> ?P q'"
    by blast+
  from Pq obtain lq where slq: "subtreeLength buf q = Some lq" and iq: "i < q + lq"
    by (auto split: option.splits)
  from qi il have ql: "q < length buf" by simp
  define xs where "xs = drop (Suc q) buf"
  from Cons_nth_drop_Suc [OF ql] have dq: "drop q buf = buf ! q # xs" by (simp add: xs_def)
  from slq obtain restq where rq: "skipTrees (Suc 0) (drop q buf) = Some restq"
    and lq: "lq = length buf - q - length restq"
    by (auto simp: subtreeLength_def split: option.splits)
  from rq dq have all: "skipTrees (nat (numberOfChildren (buf ! q))) xs = Some restq" by simp
  from skipTrees_consumes [OF rq] have "length restq < length buf - q" by simp
  with iq lq qi ql have "i - Suc q + length restq < length xs" by (simp add: xs_def)
  from tree_of_position [OF all this] obtain m mid l where
    mk: "m < nat (numberOfChildren (buf ! q))" and sm: "skipTrees m xs = Some mid"
    and s1: "skipTrees (Suc 0) mid = Some (drop l mid)" and ll: "l \<le> length mid"
    and lo: "length xs - length mid \<le> i - Suc q"
    and hi: "i - Suc q < length xs - length mid + l"
    by blast
  from skipTrees_suffix [OF sm] obtain pre where xsm: "xs = pre @ mid" by blast
  define c where "c = length buf - length mid"
  have lx: "length xs = length buf - Suc q" by (simp add: xs_def)
  from xsm lx have ml: "length mid \<le> length buf - Suc q" by (metis length_append le_add2)
  have cm: "drop c buf = mid"
  proof -
    have "buf = take (Suc q) buf @ pre @ mid"
      using xsm unfolding xs_def by (metis append_take_drop_id)
    then have "drop (length (take (Suc q) buf @ pre)) buf = mid"
      by (metis append_assoc append_eq_conv_conj)
    moreover have "length (take (Suc q) buf @ pre) = c"
      using xsm lx ql ml arg_cong [OF xsm, of length] by (simp add: c_def)
    ultimately show ?thesis by simp
  qed
  from lo hi lx ml qi ql have ci: "c \<le> i" and ic: "i < c + l" and qc: "q < c"
    by (simp_all add: c_def)
  have slc: "subtreeLength buf c = Some l"
    using s1 cm ll ml by (simp add: subtreeLength_def c_def)
  have "c = i"
  proof (rule ccontr)
    assume "c \<noteq> i"
    with ci have "c < i" by simp
    from nearest [OF qc this] slc ic show False by simp
  qed
  with cm sm mk show ?thesis by (auto simp: xs_def)
qed

lemma map_update_same:
  "f (g (xs ! k)) = f (xs ! k) \<Longrightarrow> map f (xs[k := g (xs ! k)]) = map f xs"
  by (simp add: map_update) (metis list_update_id map_update)

lemma rwaf_detach:
  assumes d: "distinct (map nodeIdentifier (buffer s))"
    and nonneg: "\<forall>n\<in>set (buffer s). 0 \<le> nodeIdentifier n"
    and nested: "skipTrees k0 (buffer s) = Some []"
    and ni: "node s self = Some (Arena i)"
  shows "\<exists>s1 p idx r s2 s3 X3 Y pre'.
      parent s self = Inr (s1, p) \<and> node s1 self = Some (Arena i) \<and>
      indexInParent s1 (Arena i) = Inr idx \<and> nodeAt s1 (Arena i) = Inr r \<and>
      move s1 (Arena i) (poolLast s1) = Inr s2 \<and>
      (if isDefined s2 p then refDecrementNumberOfChildren s2 p else Inr s2) = Inr s3 \<and>
      r \<in> set (buffer s) \<and> nodeIdentifier r = self \<and>
      buffer s3 = X3 @ Y @ r # pre' \<and>
      skipTrees (nat (numberOfChildren r)) pre' = Some [] \<and>
      set pre' \<subseteq> set (buffer s) \<and>
      sum_list (map nodeSize (buffer s3)) = usedBytes s \<and>
      staticNodes s1 = staticNodes s \<and> staticNodes s3 = staticNodes s \<and>
      capacity s3 = capacity s \<and> distinct (map nodeIdentifier (buffer s3)) \<and>
      (parentPosition (buffer s) i = None \<and> p = -1 \<or>
       (\<exists>A P kidsB kidsA stuff m.
          X3 = A @ [P\<lparr>referenceCounter := referenceCounter P + 1,
                      numberOfChildren := numberOfChildren P - 1\<rparr>] @ kidsB \<and>
          Y = kidsA @ stuff \<and> P \<in> set (buffer s) \<and> nodeIdentifier P = p \<and> p \<noteq> self \<and>
          m < nat (numberOfChildren P) \<and> idx = int m \<and>
          skipTrees m kidsB = Some [] \<and>
          skipTrees (nat (numberOfChildren P) - Suc m) kidsA = Some []))"
proof -
  let ?ids = "map nodeIdentifier"
  let ?inc = "\<lambda>n. n\<lparr>referenceCounter := referenceCounter n + 1\<rparr>"
  let ?dec = "\<lambda>n. n\<lparr>numberOfChildren := numberOfChildren n - 1\<rparr>"
  define b0 where "b0 = buffer s"
  from ni have il: "i < length b0" and idi: "nodeIdentifier (b0 ! i) = self"
    by (auto simp: node_def poolNode_def b0_def split: option.splits dest: indexOfIdentifier_Some)
  define r where "r = b0 ! i"
  from il have rm: "r \<in> set (buffer s)" by (simp add: r_def b0_def)
  from idi have rid: "nodeIdentifier r = self" by (simp add: r_def)
  \<comment> \<open>the handle on the parent\<close>
  define s1 where "s1 = (case parentPosition b0 i of None \<Rightarrow> s
      | Some q \<Rightarrow> s\<lparr>buffer := b0[q := ?inc (b0 ! q)]\<rparr>)"
  define p where "p = (case parentPosition b0 i of None \<Rightarrow> -1
      | Some q \<Rightarrow> nodeIdentifier (b0 ! q))"
  have st1: "parent s self = Inr (s1, p)"
  proof (cases "parentPosition b0 i")
    case None
    with ni il show ?thesis
      by (simp add: parent_def parentTree_def arenaPos_def fromNode_def s1_def p_def b0_def)
  next
    case (Some q)
    from parentPosition_Some [OF Some] il have ql: "q < length b0" by simp
    from indexOfIdentifier_distinct [OF d, of q] ql
    have "node s (nodeIdentifier (b0 ! q)) = Some (Arena q)"
      by (simp add: node_def poolNode_def b0_def)
    with ni il Some ql show ?thesis
      by (simp add: parent_def parentTree_def arenaPos_def fromNode_def nodeAt_def
          setIdentifierAndRetain_def retain_def updateAt_def s1_def p_def b0_def)
  qed
  define b1 where "b1 = buffer s1"
  have b1: "?ids b1 = ?ids b0 \<and> map numberOfChildren b1 = map numberOfChildren b0 \<and>
            map nodeSize b1 = map nodeSize b0 \<and> b1 ! i = r \<and>
            staticNodes s1 = staticNodes s \<and> capacity s1 = capacity s \<and>
            length b1 = length b0 \<and> drop i b1 = drop i b0"
  proof (cases "parentPosition b0 i")
    case None
    then show ?thesis by (simp add: b1_def s1_def b0_def r_def)
  next
    case (Some q)
    from parentPosition_Some [OF Some] have qi: "q < i" by simp
    have "b1 = b0[q := ?inc (b0 ! q)]" using Some by (simp add: b1_def s1_def)
    moreover have "?ids (b0[q := ?inc (b0 ! q)]) = ?ids b0"
      by (rule map_update_same) simp
    moreover have "map numberOfChildren (b0[q := ?inc (b0 ! q)]) = map numberOfChildren b0"
      by (rule map_update_same) simp
    moreover have "map nodeSize (b0[q := ?inc (b0 ! q)]) = map nodeSize b0"
      by (rule map_update_same) simp
    ultimately show ?thesis using qi Some by (simp add: s1_def r_def)
  qed
  from b1 d have d1: "distinct (?ids b1)" by (simp add: b0_def)
  have "node s1 self = node s self"
    unfolding node_def using b1 by (intro poolNode_cong) (simp_all add: b1_def b0_def)
  with ni have st2: "node s1 self = Some (Arena i)" by simp
  from il b1 have il1: "i < length b1" by simp
  with b1 have st3: "nodeAt s1 (Arena i) = Inr r" by (simp add: nodeAt_def b1_def)
  have pp1: "parentPosition b1 i = parentPosition b0 i"
    using b1 by (intro parentPosition_children_cong) simp
  \<comment> \<open>the move to the end\<close>
  from nested_subtree [OF nested, of i] il obtain l where "subtreeLength b0 i = Some l"
    by (auto simp: b0_def)
  with subtreeLength_children_cong [of b1 b0 i] b1 have sl: "subtreeLength b1 i = Some l"
    by simp
  from sl obtain pre Y where dr: "drop i b1 = pre @ Y" and lp: "length pre = l"
    and tp: "skipTrees (Suc 0) pre = Some []"
    by (auto simp: subtreeLength_eq)
  from tp obtain x pre' where pre: "pre = x # pre'" by (cases pre) auto
  from Cons_nth_drop_Suc [OF il1] dr pre b1 have x: "x = r" by simp
  from tp pre x have sub: "skipTrees (nat (numberOfChildren r)) pre' = Some []" by simp
  define X where "X = take i b1"
  have lX: "length X = i" using il1 by (simp add: X_def)
  have whole: "b1 = X @ pre @ Y"
    using dr by (metis X_def append_take_drop_id)
  have ile: "i + l \<le> length b1" using whole lX lp by simp
  moreover have "drop (i + l) b1 = Y" using whole lX lp by simp
  moreover have "take l (drop i b1) = pre" using dr lp by simp
  ultimately have mr: "moveRecords i l (length b1) b1 = X @ Y @ pre"
    by (simp add: moveRecords_after X_def)
  define s2 where "s2 = s1\<lparr>buffer := X @ Y @ pre\<rparr>"
  from ile have "\<not> (i < length b1 \<and> length b1 < i + l)" by simp
  then have st5: "move s1 (Arena i) (poolLast s1) = Inr s2"
    using sl mr
    by (simp add: move_def arenaPos_def poolLast_def s2_def b1_def [symmetric])
  from d1 whole have dw: "distinct (?ids (X @ pre @ Y))" by simp
  then have d2: "distinct (?ids (X @ Y @ pre))" by auto
  have pre_sub: "set pre' \<subseteq> set (buffer s)"
  proof -
    from b1 dr pre have "drop i b0 = r # pre' @ Y" using x by simp
    then have "set pre' \<subseteq> set (drop i b0)" by auto
    also have "\<dots> \<subseteq> set b0" by (rule set_drop_subset)
    finally show ?thesis by (simp add: b0_def)
  qed
  have size2: "sum_list (map nodeSize (X @ Y @ pre)) = usedBytes s"
  proof -
    have "sum_list (map nodeSize (X @ Y @ pre)) = sum_list (map nodeSize (X @ pre @ Y))"
      by simp
    also have "\<dots> = sum_list (map nodeSize b0)" using whole b1 by simp
    finally show ?thesis by (simp add: usedBytes_def b0_def)
  qed
  \<comment> \<open>the parent's child count\<close>
  show ?thesis
  proof (cases "parentPosition b0 i")
    case None
    then have p: "p = -1" by (simp add: p_def)
    then have "\<not> isDefined s2 p" by (simp add: isDefined_def)
    then have st6: "(if isDefined s2 p then refDecrementNumberOfChildren s2 p else Inr s2) = Inr s2"
      by simp
    from None pp1 il1 have st2b: "indexInParent s1 (Arena i) = Inr (-1)"
      by (simp add: indexInParent_def arenaPos_def b1_def)
    have b2: "buffer s2 = X @ Y @ r # pre'" using pre x by (simp add: s2_def)
    have m2: "staticNodes s2 = staticNodes s" "capacity s2 = capacity s"
      using b1 by (simp_all add: s2_def)
    from b1 have m1: "staticNodes s1 = staticNodes s" by simp
    from size2 d2 have size2': "sum_list (map nodeSize (buffer s2)) = usedBytes s"
      and d2': "distinct (?ids (buffer s2))"
      by (simp_all add: s2_def)
    from None p have par: "parentPosition (buffer s) i = None \<and> p = -1 \<or>
       (\<exists>A P kidsB kidsA stuff m.
          X = A @ [P\<lparr>referenceCounter := referenceCounter P + 1,
                      numberOfChildren := numberOfChildren P - 1\<rparr>] @ kidsB \<and>
          Y = kidsA @ stuff \<and> P \<in> set (buffer s) \<and> nodeIdentifier P = p \<and> p \<noteq> self \<and>
          m < nat (numberOfChildren P) \<and> (-1::int) = int m \<and>
          skipTrees m kidsB = Some [] \<and>
          skipTrees (nat (numberOfChildren P) - Suc m) kidsA = Some [])"
      by (simp add: b0_def)
    from st1 st2 st2b st3 st5 st6 rm rid b2 sub pre_sub size2' m1 m2 d2' par
    show ?thesis
      by (intro exI [of _ s1] exI [of _ p] exI [of _ "-1"] exI [of _ r] exI [of _ s2]
          exI [of _ s2] exI [of _ X] exI [of _ Y] exI [of _ pre'])
         (intro conjI, assumption+)
  next
    case (Some q)
    from parentPosition_Some [OF Some] have qi: "q < i" by simp
    with il have ql: "q < length b0" by simp
    define P where "P = b0 ! q"
    have Pm: "P \<in> set (buffer s)" using ql by (simp add: P_def b0_def)
    have p: "p = nodeIdentifier P" using Some by (simp add: p_def P_def)
    from Pm nonneg p have p0: "0 \<le> p" by simp
    have b1q: "b1 = b0[q := ?inc P]" using Some by (simp add: b1_def s1_def P_def)
    have ps: "p \<noteq> self"
    proof
      assume "p = self"
      from indexOfIdentifier_distinct [OF d, of q] indexOfIdentifier_distinct [OF d, of i] ql il
      have "indexOfIdentifier (nodeIdentifier (b0 ! q)) b0 = Some q"
        and "indexOfIdentifier (nodeIdentifier (b0 ! i)) b0 = Some i"
        by (simp_all add: b0_def)
      with \<open>p = self\<close> p idi have "q = i" by (simp add: P_def)
      with qi show False by simp
    qed
    \<comment> \<open>the node starts exactly at a child boundary of its parent\<close>
    from parent_boundary [OF Some _ il] nested obtain m where
      mk: "m < nat (numberOfChildren P)"
      and sm0: "skipTrees m (drop (Suc q) b0) = Some (drop i b0)"
      by (auto simp: b0_def P_def)
    have dq1: "drop (Suc q) b1 = drop (Suc q) b0" by (simp add: b1q)
    with sm0 b1 have sm: "skipTrees m (drop (Suc q) b1) = Some (drop i b1)" by simp
    from skipTrees_suffix [OF sm] obtain kidsB where kb: "drop (Suc q) b1 = kidsB @ drop i b1"
      and kB: "skipTrees m kidsB = Some []"
      by blast
    have ql1: "q < length b1" using ql b1 by simp
    have b1q': "b1 ! q = ?inc P" using ql by (simp add: b1q)
    define A where "A = take q b1"
    have lA: "length A = q" using ql1 by (simp add: A_def)
    from Cons_nth_drop_Suc [OF ql1] kb b1q' have "drop q b1 = ?inc P # kidsB @ drop i b1"
      by simp
    then have w1: "b1 = A @ [?inc P] @ kidsB @ drop i b1"
      by (metis A_def append_Cons append_Nil append_take_drop_id)
    have Xd: "X = A @ [?inc P] @ kidsB"
    proof -
      from arg_cong [OF w1, of length] il1 lA have "length (A @ [?inc P] @ kidsB) = i" by simp
      with w1 show ?thesis unfolding X_def by (metis append_assoc append_eq_conv_conj)
    qed
    \<comment> \<open>the children that follow the node\<close>
    from nested_subtree [OF nested, of q] ql obtain lq where "subtreeLength b0 q = Some lq"
      by (auto simp: b0_def)
    then obtain restq where "skipTrees (Suc 0) (drop q b0) = Some restq"
      by (auto simp: subtreeLength_def split: option.splits)
    with Cons_nth_drop_Suc [OF ql]
    have "skipTrees (nat (numberOfChildren P)) (drop (Suc q) b0) = Some restq"
      by (metis P_def skipTrees.simps(3) add_0)
    moreover from mk
    have "nat (numberOfChildren P) = m + (Suc 0 + (nat (numberOfChildren P) - Suc m))" by simp
    ultimately have "skipTrees (m + (Suc 0 + (nat (numberOfChildren P) - Suc m)))
        (drop (Suc q) b0) = Some restq"
      by simp
    from skipTrees_add_Some [OF this] sm0 b1 dr
    have "skipTrees (Suc 0 + (nat (numberOfChildren P) - Suc m)) (pre @ Y) = Some restq"
      by simp
    from skipTrees_add_Some [OF this] skipTrees_append [OF tp, of Y]
    have "skipTrees (nat (numberOfChildren P) - Suc m) Y = Some restq" by simp
    from skipTrees_suffix [OF this] obtain kidsA where Yd: "Y = kidsA @ restq"
      and kA: "skipTrees (nat (numberOfChildren P) - Suc m) kidsA = Some []"
      by blast
    \<comment> \<open>the index under the parent\<close>
    have "numberOfChildren (b1 ! q) = numberOfChildren P" by (simp add: b1q')
    moreover from indexOfChildWalk_found [OF sm _ _ mk] ql1 il1
    have "indexOfChildWalk b1 (nat (numberOfChildren P)) (Suc q) i = int m" by simp
    ultimately have st2b: "indexInParent s1 (Arena i) = Inr (int m)"
      using Some pp1 il1 by (simp add: indexInParent_def arenaPos_def b1_def [symmetric])
    \<comment> \<open>the decrement\<close>
    have q2: "(X @ Y @ pre) ! q = ?inc P" and ql2: "q < length (X @ Y @ pre)"
      using qi lX Xd lA by (simp_all add: nth_append)
    from indexOfIdentifier_distinct [OF d2 ql2] q2 p
    have np: "node s2 p = Some (Arena q)"
      by (simp add: node_def poolNode_def s2_def)
    with p0 have def2: "isDefined s2 p" by (simp add: isDefined_def)
    let ?P3 = "P\<lparr>referenceCounter := referenceCounter P + 1,
                  numberOfChildren := numberOfChildren P - 1\<rparr>"
    define X3 where "X3 = A @ [?P3] @ kidsB"
    define s3 where "s3 = s2\<lparr>buffer := X3 @ Y @ r # pre'\<rparr>"
    have "(X @ Y @ pre)[q := ?dec ((X @ Y @ pre) ! q)] = X3 @ Y @ r # pre'"
      using q2 lA pre x by (simp add: Xd X3_def list_update_append)
    with np ql2 have "refDecrementNumberOfChildren s2 p = Inr s3"
      by (simp add: refDecrementNumberOfChildren_def decrementNumberOfChildren_def
          updateAt_def s2_def s3_def)
    with def2 have st6:
      "(if isDefined s2 p then refDecrementNumberOfChildren s2 p else Inr s2) = Inr s3"
      by simp
    have b3: "buffer s3 = X3 @ Y @ r # pre'" by (simp add: s3_def)
    have "map nodeSize (X3 @ Y @ r # pre') = map nodeSize (X @ Y @ pre)"
      and "?ids (X3 @ Y @ r # pre') = ?ids (X @ Y @ pre)"
      using pre x by (simp_all add: X3_def Xd)
    with size2 d2 b3 have size3: "sum_list (map nodeSize (buffer s3)) = usedBytes s"
      and d3: "distinct (?ids (buffer s3))"
      by simp_all
    have m3: "staticNodes s3 = staticNodes s" "capacity s3 = capacity s"
      using b1 by (simp_all add: s3_def s2_def)
    from b1 have m1: "staticNodes s1 = staticNodes s" by simp
    have "X3 = A @ [?P3] @ kidsB \<and>
          Y = kidsA @ restq \<and> P \<in> set (buffer s) \<and> nodeIdentifier P = p \<and> p \<noteq> self \<and>
          m < nat (numberOfChildren P) \<and> int m = int m \<and>
          skipTrees m kidsB = Some [] \<and>
          skipTrees (nat (numberOfChildren P) - Suc m) kidsA = Some []"
      using X3_def Yd Pm p ps mk kB kA by simp
    then have par: "parentPosition (buffer s) i = None \<and> p = -1 \<or>
       (\<exists>A P kidsB kidsA stuff m'.
          X3 = A @ [P\<lparr>referenceCounter := referenceCounter P + 1,
                      numberOfChildren := numberOfChildren P - 1\<rparr>] @ kidsB \<and>
          Y = kidsA @ stuff \<and> P \<in> set (buffer s) \<and> nodeIdentifier P = p \<and> p \<noteq> self \<and>
          m' < nat (numberOfChildren P) \<and> int m = int m' \<and>
          skipTrees m' kidsB = Some [] \<and>
          skipTrees (nat (numberOfChildren P) - Suc m') kidsA = Some [])"
      by (intro disjI2 exI [of _ A] exI [of _ P] exI [of _ kidsB] exI [of _ kidsA]
          exI [of _ restq] exI [of _ m])
    from st1 st2 st2b st3 st5 st6 rm rid b3 sub pre_sub size3 m1 m3 d3 par
    show ?thesis
      by (intro exI [of _ s1] exI [of _ p] exI [of _ "int m"] exI [of _ r] exI [of _ s2]
          exI [of _ s3] exI [of _ X3] exI [of _ Y] exI [of _ pre'])
         (intro conjI, assumption+)
  qed
qed

lemma rwaf_succeeds:
  assumes live: "liveRecords s" and nested: "wellNested (buffer s)"
    and reg: "sentinelsRegistered s" and cap: "usedBytes s \<le> capacity s"
    and ni: "node s self = Some (Arena i)"
  shows "\<exists>s'. replaceWithAllocationFailure s self = Inr s'"
proof -
  let ?ids = "map nodeIdentifier"
  from live have d: "distinct (?ids (buffer s))"
    and nonneg: "\<forall>n\<in>set (buffer s). 0 \<le> nodeIdentifier n"
    and owners: "\<And>n. n \<in> set (buffer s) \<Longrightarrow> 0 < referenceCounter n"
    and childless: "\<And>n. n \<in> set (buffer s) \<Longrightarrow> isAllocationFailure n \<Longrightarrow> numberOfChildren n = 0"
    by (auto simp: liveRecords_def)
  from nested obtain k0 where k0: "skipTrees k0 (buffer s) = Some []"
    by (auto simp: wellNested_def)
  from rwaf_detach [OF d nonneg k0 ni] obtain s1 p idx r s2 s3 X3 Y pre' where
    st1: "parent s self = Inr (s1, p)" and st2: "node s1 self = Some (Arena i)"
    and st2b: "indexInParent s1 (Arena i) = Inr idx" and st3: "nodeAt s1 (Arena i) = Inr r"
    and st5: "move s1 (Arena i) (poolLast s1) = Inr s2"
    and st6: "(if isDefined s2 p then refDecrementNumberOfChildren s2 p else Inr s2) = Inr s3"
    and rm: "r \<in> set (buffer s)" and rid: "nodeIdentifier r = self"
    and b3: "buffer s3 = X3 @ Y @ r # pre'"
    and sub: "skipTrees (nat (numberOfChildren r)) pre' = Some []"
    and pre_sub: "set pre' \<subseteq> set (buffer s)"
    and size3: "sum_list (map nodeSize (buffer s3)) = usedBytes s"
    and m1: "staticNodes s1 = staticNodes s" and m3: "staticNodes s3 = staticNodes s"
    and c3: "capacity s3 = capacity s" and d3: "distinct (?ids (buffer s3))"
    and par: "parentPosition (buffer s) i = None \<and> p = -1 \<or>
       (\<exists>A P kidsB kidsA stuff m.
          X3 = A @ [P\<lparr>referenceCounter := referenceCounter P + 1,
                      numberOfChildren := numberOfChildren P - 1\<rparr>] @ kidsB \<and>
          Y = kidsA @ stuff \<and> P \<in> set (buffer s) \<and> nodeIdentifier P = p \<and> p \<noteq> self \<and>
          m < nat (numberOfChildren P) \<and> idx = int m \<and>
          skipTrees m kidsB = Some [] \<and>
          skipTrees (nat (numberOfChildren P) - Suc m) kidsA = Some [])"
    by blast
  define c where "c = referenceCounter r"
  from owners [OF rm] have c0: "0 < c" by (simp add: c_def)
  from nonneg rm rid have self0: "0 \<le> self" by auto
  \<comment> \<open>the canonical sentinel of the node's type\<close>
  from reg rm have "allocationFailureNodeIdentifier r \<in> nodeIdentifier ` set (staticNodes s)"
    by (simp add: sentinelsRegistered_def)
  then obtain j where j: "indexOfIdentifier (allocationFailureNodeIdentifier r) (staticNodes s) = Some j"
    by (cases "indexOfIdentifier (allocationFailureNodeIdentifier r) (staticNodes s)")
       (simp_all add: indexOfIdentifier_None_iff)
  with m1 have st4: "failedAllocationStaticNode s1 r = Some (Static j)"
    by (simp add: failedAllocationStaticNode_def)
  define z where "z = staticNodes s ! j"
  from indexOfIdentifier_Some [OF j] have jl: "j < length (staticNodes s)"
    and zid: "nodeIdentifier z = allocationFailureNodeIdentifier r"
    by (simp_all add: z_def)
  then have zm: "z \<in> set (staticNodes s)" by (simp add: z_def)
  with reg rm zid have zsize: "nodeSize z \<le> nodeSize r" and zc: "numberOfChildren z = 0"
    by (auto simp: sentinelsRegistered_def)
  \<comment> \<open>reclaiming the node\<close>
  let ?i3 = "length X3 + length Y"
  have i3l: "?i3 < length (buffer s3)" and i3r: "buffer s3 ! ?i3 = r"
    by (simp_all add: b3 nth_append)
  from indexOfIdentifier_distinct [OF d3 i3l] i3r rid
  have st7: "node s3 self = Some (Arena ?i3)" by (simp add: node_def poolNode_def)
  have dr3: "drop (Suc ?i3) (buffer s3) = pre'" by (simp add: b3)
  from owners pre_sub have "\<forall>x\<in>set pre'. 0 < referenceCounter x" by auto
  with releaseScan_succeeds [of 0 "nat (numberOfChildren r)" pre'] sub obtain rest' where
    rs: "releaseScan 0 (nat (numberOfChildren r)) pre' = Inr rest'"
    and rsize: "sum_list (map nodeSize rest') \<le> sum_list (map nodeSize pre')"
    by auto
  define B where "B = X3 @ Y @ rest'"
  define s4 where "s4 = s3\<lparr>buffer := B\<rparr>"
  have st8: "releaseChildrenAndDestroy s3 (Arena ?i3) = Inr s4"
    using i3l i3r dr3 rs
    by (simp add: releaseChildrenAndDestroy_def arenaPos_def s4_def B_def b3)
  have "usedBytes s4 + nodeSize r \<le> usedBytes s"
    using rsize size3 by (simp add: usedBytes_def s4_def B_def b3)
  with zsize cap c3 have fits: "\<not> capacity s4 < usedBytes s4 + nodeSize z"
    by (simp add: s4_def)
  define s5 where "s5 = s4\<lparr>buffer := B @ [z\<lparr>nodeIdentifier := freshIdentifier s4\<rparr>]\<rparr>"
  have st9: "deepCopy s4 (Static j) = Inr (s5, Arena (length B))"
    using jl m3 fits by (simp add: deepCopy_def allocCopy_def s4_def s5_def z_def)
  let ?Z = "z\<lparr>nodeIdentifier := self\<rparr>"
  define s6 where "s6 = s5\<lparr>buffer := B @ [?Z]\<rparr>"
  have st10: "rename s5 (Arena (length B)) self = Inr s6"
    by (simp add: rename_def updateAt_def s5_def s6_def)
  have b6: "buffer s6 = B @ [?Z]" by (simp add: s6_def)
  from rwaf_substitute [OF d nonneg st1 st2 st3 st4 st5 st6 st7 st8 st9 st10]
  have d6: "distinct (?ids (buffer s6))" by blast
  have n6: "node s6 self = Some (Arena (length B))"
    using indexOfIdentifier_distinct [OF d6, of "length B"]
    by (simp add: b6 node_def poolNode_def)
  note steps = st1 st2 st2b st3 st4 st5 st6 st7 st8 st9 st10
  show ?thesis
  proof (cases "parentPosition (buffer s) i = None \<and> p = -1")
    case True
    then have "\<not> isDefined s6 p" by (simp add: isDefined_def)
    moreover have "setReferenceCounter s6 (Arena (length B)) c
        = Inr (s6\<lparr>buffer := B @ [?Z\<lparr>referenceCounter := c\<rparr>]\<rparr>)"
      by (simp add: setReferenceCounter_def updateAt_def b6)
    moreover from True have "destroy (s6\<lparr>buffer := B @ [?Z\<lparr>referenceCounter := c\<rparr>]\<rparr>) p
        = Inr (s6\<lparr>buffer := B @ [?Z\<lparr>referenceCounter := c\<rparr>]\<rparr>)"
      by (simp add: destroy_def)
    ultimately have "replaceWithAllocationFailure s self
        = Inr (s6\<lparr>buffer := B @ [?Z\<lparr>referenceCounter := c\<rparr>]\<rparr>)"
      using steps by (simp add: replaceWithAllocationFailure_def c_def)
    then show ?thesis by blast
  next
    case False
    with par obtain A P kidsB kidsA stuff m where
      X3: "X3 = A @ [P\<lparr>referenceCounter := referenceCounter P + 1,
                      numberOfChildren := numberOfChildren P - 1\<rparr>] @ kidsB"
      and Y: "Y = kidsA @ stuff" and Pm: "P \<in> set (buffer s)" and Pi: "nodeIdentifier P = p"
      and ps: "p \<noteq> self" and mk: "m < nat (numberOfChildren P)" and idx: "idx = int m"
      and kB: "skipTrees m kidsB = Some []"
      and kA: "skipTrees (nat (numberOfChildren P) - Suc m) kidsA = Some []"
      by blast
    let ?P3 = "P\<lparr>referenceCounter := referenceCounter P + 1,
                  numberOfChildren := numberOfChildren P - 1\<rparr>"
    from Pm Pi nonneg have p0: "0 \<le> p" by auto
    from mk have Pc: "0 < numberOfChildren P" by simp
    with Pm childless [of P] have Pnf: "\<not> isAllocationFailure ?P3" by auto
    define W where "W = stuff @ rest'"
    have B: "B = A @ [?P3] @ (kidsB @ kidsA) @ W" by (simp add: B_def X3 Y W_def)
    \<comment> \<open>the parent is defined\<close>
    have "buffer s6 ! length A = ?P3" and Al: "length A < length (buffer s6)"
      by (simp_all add: b6 B nth_append)
    with indexOfIdentifier_distinct [OF d6 Al] Pi
    have np6: "node s6 p = Some (Arena (length A))" by (simp add: node_def poolNode_def)
    with p0 have def6: "isDefined s6 p" by (simp add: isDefined_def)
    \<comment> \<open>the count is set, and the temporary handle retains the sentinel\<close>
    define s7 where "s7 = s6\<lparr>buffer := B @ [?Z\<lparr>referenceCounter := c - 1\<rparr>]\<rparr>"
    have e7: "setReferenceCounter s6 (Arena (length B)) (c - 1) = Inr s7"
      by (simp add: setReferenceCounter_def updateAt_def b6 s7_def)
    have ids7: "?ids (buffer s7) = ?ids (buffer s6)" by (simp add: s7_def b6)
    with d6 have d7: "distinct (?ids (buffer s7))" by simp
    have n7: "node s7 self = Some (Arena (length B))"
      using indexOfIdentifier_distinct [OF d7, of "length B"]
      by (simp add: s7_def node_def poolNode_def)
    let ?Z8 = "?Z\<lparr>referenceCounter := c\<rparr>"
    define s8 where "s8 = s7\<lparr>buffer := B @ [?Z8]\<rparr>"
    have e8: "fromNode s7 (Some (Arena (length B))) = Inr (s8, self)"
      using n7
      by (simp add: fromNode_def nodeAt_def setIdentifierAndRetain_def retain_def updateAt_def
          s7_def s8_def)
    have b8: "buffer s8 = A @ [?P3] @ (kidsB @ kidsA) @ W @ [?Z8]" by (simp add: s8_def B)
    have ids8: "?ids (buffer s8) = ?ids (buffer s6)" by (simp add: s8_def b6)
    with d6 have d8: "distinct (?ids (buffer s8))" by simp
    \<comment> \<open>reattaching\<close>
    have "buffer s8 ! length A = ?P3" and Al8: "length A < length (buffer s8)"
      by (simp_all add: b8 nth_append)
    with indexOfIdentifier_distinct [OF d8 Al8] Pi
    have np8: "node s8 p = Some (Arena (length A))"
      and aP8: "nodeAt s8 (Arena (length A)) = Inr ?P3"
      by (simp_all add: node_def poolNode_def nodeAt_def)
    have i0: "0 \<le> idx" and i1: "idx \<le> numberOfChildren ?P3" using idx mk by simp_all
    have kids: "skipTrees (nat (numberOfChildren ?P3)) (kidsB @ kidsA) = Some []"
    proof -
      from mk have e: "nat (numberOfChildren ?P3) = m + (nat (numberOfChildren P) - Suc m)"
        by simp
      from skipTrees_append [OF kB, of kidsA] kA
      have "Option.bind (skipTrees m (kidsB @ kidsA))
          (skipTrees (nat (numberOfChildren P) - Suc m)) = Some []"
        by simp
      then show ?thesis unfolding e by (simp only: skipTrees_add)
    qed
    have sL: "subtreeLength (buffer s8) (length A) = Some (Suc (length (kidsB @ kidsA)))"
      unfolding subtreeLength_eq
      using kids
      by (intro exI [of _ "?P3 # kidsB @ kidsA"] exI [of _ "W @ [?Z8]"]) (simp add: b8)
    let ?j = "length B"
    have jl8: "?j < length (buffer s8)" and "buffer s8 ! ?j = ?Z8"
      by (simp_all add: s8_def)
    with indexOfIdentifier_distinct [OF d8 jl8]
    have nc8: "node s8 self = Some (Arena ?j)" and aT8: "nodeAt s8 (Arena ?j) = Inr ?Z8"
      by (simp_all add: node_def poolNode_def nodeAt_def)
    have sl: "subtreeLength (buffer s8) ?j = Some 1"
      unfolding subtreeLength_eq using zc
      by (intro exI [of _ "[?Z8]"] exI [of _ "[]"]) (simp add: s8_def)
    have dj: "?j + 1 \<le> length A \<or> length A + Suc (length (kidsB @ kidsA)) \<le> ?j"
      by (simp add: B)
    from addChildAtIndex_layout [OF d8 np8 aP8 Pnf i0 i1 sL nc8 aT8 sl dj]
    obtain s9 A' K S' Z' where e9: "addChildAtIndex s8 p self idx = Inr s9"
      and b9: "buffer s9 = A' @ [?P3\<lparr>numberOfChildren := numberOfChildren ?P3 + 1\<rparr>] @ K @
                  (?Z8\<lparr>referenceCounter := referenceCounter ?Z8 + 1\<rparr> # S') @ Z'"
      and d9: "distinct (?ids (buffer s9))"
      by blast
    \<comment> \<open>the temporary handle and the handle on the parent are released\<close>
    have "recordOf s9 self = Some (?Z8\<lparr>referenceCounter := referenceCounter ?Z8 + 1\<rparr>)"
      by (simp add: recordOf_distinct [OF d9] b9)
    from destroy_records [OF self0 this] c0 obtain s10 where e10: "destroy s9 self = Inr s10"
      and r10: "recordOf s10 = (recordOf s9)(self \<mapsto> ?Z8)"
      by auto
    have "recordOf s9 p = Some (?P3\<lparr>numberOfChildren := numberOfChildren ?P3 + 1\<rparr>)"
      using Pi by (simp add: recordOf_distinct [OF d9] b9)
    with r10 ps
    have "recordOf s10 p = Some (?P3\<lparr>numberOfChildren := numberOfChildren ?P3 + 1\<rparr>)"
      by simp
    from destroy_records [OF p0 this] owners [OF Pm] obtain s' where e11: "destroy s10 p = Inr s'"
      by auto
    have "replaceWithAllocationFailure s self = Inr s'"
      using steps def6 i0 e7 e8 e9 e10 e11
      by (simp add: replaceWithAllocationFailure_def c_def)
    then show ?thesis by blast
  qed
qed

section \<open>The failure protocol: identifier and retain count\<close>

text \<open>
  Claim C1.  On a well-formed pool, \<open>replaceWithAllocationFailure\<close> on a node of the
  arena with identifier \<open>self\<close> runs to its end, and that identifier still resolves
  afterwards, without any new identifier being handed out: \<open>isDefined\<close> holds,
  \<open>isAllocationFailure\<close> answers true, and the record it resolves to is a copy of a
  canonical sentinel renamed to \<open>self\<close>, with the retain count the node had before.
\<close>

theorem failure_protocol_keeps_identifier:
  assumes "wellFormedPool s" and "node s self = Some (Arena i)"
  shows "\<exists>s'. replaceWithAllocationFailure s self = Inr s' \<and>
           isDefined s' self \<and> refIsAllocationFailure s' self = Inr True \<and>
           (\<exists>z c. z \<in> set (staticNodes s) \<and> nodeRetainCount s self = Inr c \<and>
              recordOf s' self = Some (z\<lparr>nodeIdentifier := self, referenceCounter := c\<rparr>))"
proof -
  from assms(1) have live: "liveRecords s" and nested: "wellNested (buffer s)"
    and reg: "sentinelsRegistered s" and cap: "usedBytes s \<le> capacity s"
    by (simp_all add: wellFormedPool_def)
  from rwaf_succeeds [OF live nested reg cap assms(2)] obtain s' where
    ok: "replaceWithAllocationFailure s self = Inr s'" ..
  from rwaf_result [OF live ok] obtain r z j where r: "recordOf s self = Some r"
    and ni: "node s self = Some (Arena j)" and z: "z \<in> set (staticNodes s)"
    and r': "recordOf s' self =
       Some (z\<lparr>nodeIdentifier := self, referenceCounter := referenceCounter r\<rparr>)"
    by blast
  let ?Z = "z\<lparr>nodeIdentifier := self, referenceCounter := referenceCounter r\<rparr>"
  from live z have zf: "isAllocationFailure z" by (simp add: liveRecords_def)
  from live recordOf_mem [OF r] recordOf_identifier [OF r] have "0 \<le> self"
    by (auto simp: liveRecords_def)
  moreover from recordOf_nodeAt [OF r'] obtain k where k: "node s' self = Some (Arena k)"
    and a: "nodeAt s' (Arena k) = Inr ?Z"
    by blast
  ultimately have "isDefined s' self" by (simp add: isDefined_def)
  moreover from k a zf have "refIsAllocationFailure s' self = Inr True"
    by (simp add: refIsAllocationFailure_def)
  moreover from node_of_recordOf [OF r ni] ni
  have "nodeRetainCount s self = Inr (referenceCounter r)"
    by (simp add: nodeRetainCount_def)
  ultimately show ?thesis using ok z r' by blast
qed

text \<open>
  Witness: the tree 0(1, 2(3)), where node 2 has three owners.  The protocol on node 2
  destroys node 3 and leaves a sentinel under identifier 2 as second child of node 0.
\<close>

theorem failure_protocol_keeps_identifier_witness:
  "wellFormedPool (poolWith [plainNode 0 2 1, plainNode 1 0 2, plainNode 2 1 3, plainNode 3 0 1]) \<and>
   node (poolWith [plainNode 0 2 1, plainNode 1 0 2, plainNode 2 1 3, plainNode 3 0 1]) 2
     = Some (Arena 2) \<and>
   layoutOf (replaceWithAllocationFailure
       (poolWith [plainNode 0 2 1, plainNode 1 0 2, plainNode 2 1 3, plainNode 3 0 1]) 2)
     = Inr [(0, 2, 1), (1, 0, 2), (2, 0, 3)] \<and>
   failureIn (replaceWithAllocationFailure
       (poolWith [plainNode 0 2 1, plainNode 1 0 2, plainNode 2 1 3, plainNode 3 0 1]) 2) 2
     = Inr True"
proof -
  let ?s = "poolWith [plainNode 0 2 1, plainNode 1 0 2, plainNode 2 1 3, plainNode 3 0 1]"
  have wf: "wellFormedPool ?s" by code_simp
  have ni: "node ?s 2 = Some (Arena 2)" by code_simp
  have l: "layoutOf (replaceWithAllocationFailure ?s 2) = Inr [(0, 2, 1), (1, 0, 2), (2, 0, 3)]"
    by code_simp
  from failure_protocol_keeps_identifier [OF wf ni] obtain s' where
    ok: "replaceWithAllocationFailure ?s 2 = Inr s'"
    and f: "refIsAllocationFailure s' 2 = Inr True"
    by blast
  from ok f have "failureIn (replaceWithAllocationFailure ?s 2) 2 = Inr True"
    by (simp add: failureIn_def)
  with wf ni l show ?thesis by simp
qed

text \<open>
  Claim C6.  On a well-formed pool, let \<open>c\<close> be the retain count of the node when
  \<open>replaceWithAllocationFailure\<close> starts.  The function runs to its end.  Its first part,
  \<open>substituteSentinel\<close>, captures \<open>c\<close> and leaves a pool \<open>s6\<close> in which the identifier
  resolves to the copy of a canonical sentinel \<open>z\<close>; its last statement is
  \<open>restoreRetainCount\<close> on that pool.  If the node had a parent, the sentinel's count is
  set to \<open>c - 1\<close> (pool \<open>s7\<close>) before \<open>addChildAtIndex\<close> on the parent: the temporary
  handle of the call and the parent's retain bring it to \<open>c + 1\<close> (pool \<open>s9\<close>), the
  release of the temporary handle to \<open>c\<close>.  If the node had no parent, the count is set
  to \<open>c\<close> and nothing else happens.  In both cases the identifier resolves afterwards
  to the sentinel with retain count \<open>c\<close>.
\<close>

theorem failure_protocol_restores_retain_count:
  assumes "wellFormedPool s" and "node s self = Some (Arena i)"
    and "nodeRetainCount s self = Inr c"
  shows "\<exists>s' z s6 p nn idx.
     replaceWithAllocationFailure s self = Inr s' \<and>
     substituteSentinel s self = Inr (s6, p, nn, idx, c) \<and>
     z \<in> set (staticNodes s) \<and>
     recordOf s6 self = Some (z\<lparr>nodeIdentifier := self\<rparr>) \<and> node s6 self = Some nn \<and>
     (isDefined s6 p \<longleftrightarrow> parentPosition (buffer s) i \<noteq> None) \<and>
     restoreRetainCount s6 p nn idx c = Inr s' \<and>
     (if parentPosition (buffer s) i \<noteq> None then
        \<exists>s7 s8 s9 s10.
          setReferenceCounter s6 nn (c - 1) = Inr s7 \<and>
          recordOf s7 self = Some (z\<lparr>nodeIdentifier := self, referenceCounter := c - 1\<rparr>) \<and>
          fromNode s7 (Some nn) = Inr (s8, self) \<and>
          addChildAtIndex s8 p self idx = Inr s9 \<and>
          recordOf s9 self = Some (z\<lparr>nodeIdentifier := self, referenceCounter := c + 1\<rparr>) \<and>
          destroy s9 self = Inr s10 \<and>
          recordOf s10 self = Some (z\<lparr>nodeIdentifier := self, referenceCounter := c\<rparr>) \<and>
          destroy s10 p = Inr s'
      else setReferenceCounter s6 nn c = Inr s') \<and>
     recordOf s' self = Some (z\<lparr>nodeIdentifier := self, referenceCounter := c\<rparr>) \<and>
     nodeRetainCount s' self = Inr c"
proof -
  from assms(1) have live: "liveRecords s" and nested: "wellNested (buffer s)"
    and reg: "sentinelsRegistered s" and cap: "usedBytes s \<le> capacity s"
    by (simp_all add: wellFormedPool_def)
  from rwaf_succeeds [OF live nested reg cap assms(2)] obtain s' where
    ok: "replaceWithAllocationFailure s self = Inr s'" ..
  from rwaf_trace [OF live ok] obtain r z j s6 p nn idx where
    r: "recordOf s self = Some r" and ni: "node s self = Some (Arena j)"
    and z: "z \<in> set (staticNodes s)"
    and sub: "substituteSentinel s self = Inr (s6, p, nn, idx, referenceCounter r)"
    and Z6: "recordOf s6 self = Some (z\<lparr>nodeIdentifier := self\<rparr>)"
    and n6: "node s6 self = Some nn"
    and def: "isDefined s6 p \<longleftrightarrow> parentPosition (buffer s) j \<noteq> None"
    and tail: "restoreRetainCount s6 p nn idx (referenceCounter r) = Inr s'"
    and cases: "if isDefined s6 p then
        \<exists>s7 s8 s9 s10.
          setReferenceCounter s6 nn (referenceCounter r - 1) = Inr s7 \<and>
          recordOf s7 self =
            Some (z\<lparr>nodeIdentifier := self, referenceCounter := referenceCounter r - 1\<rparr>) \<and>
          fromNode s7 (Some nn) = Inr (s8, self) \<and>
          addChildAtIndex s8 p self idx = Inr s9 \<and>
          recordOf s9 self =
            Some (z\<lparr>nodeIdentifier := self, referenceCounter := referenceCounter r + 1\<rparr>) \<and>
          destroy s9 self = Inr s10 \<and>
          recordOf s10 self =
            Some (z\<lparr>nodeIdentifier := self, referenceCounter := referenceCounter r\<rparr>) \<and>
          destroy s10 p = Inr s'
      else setReferenceCounter s6 nn (referenceCounter r) = Inr s'"
    and r': "recordOf s' self =
       Some (z\<lparr>nodeIdentifier := self, referenceCounter := referenceCounter r\<rparr>)"
    by (elim exE conjE)
  from ni assms(2) have j: "j = i" by simp
  from node_of_recordOf [OF r ni] ni assms(3) have c: "referenceCounter r = c"
    by (simp add: nodeRetainCount_def)
  from recordOf_nodeAt [OF r'] c have count: "nodeRetainCount s' self = Inr c"
    by (auto simp: nodeRetainCount_def)
  from def j have def': "isDefined s6 p \<longleftrightarrow> parentPosition (buffer s) i \<noteq> None" by simp
  from cases have cases': "if parentPosition (buffer s) i \<noteq> None then
        \<exists>s7 s8 s9 s10.
          setReferenceCounter s6 nn (c - 1) = Inr s7 \<and>
          recordOf s7 self = Some (z\<lparr>nodeIdentifier := self, referenceCounter := c - 1\<rparr>) \<and>
          fromNode s7 (Some nn) = Inr (s8, self) \<and>
          addChildAtIndex s8 p self idx = Inr s9 \<and>
          recordOf s9 self = Some (z\<lparr>nodeIdentifier := self, referenceCounter := c + 1\<rparr>) \<and>
          destroy s9 self = Inr s10 \<and>
          recordOf s10 self = Some (z\<lparr>nodeIdentifier := self, referenceCounter := c\<rparr>) \<and>
          destroy s10 p = Inr s'
      else setReferenceCounter s6 nn c = Inr s'"
    unfolding c def' .
  from ok sub [unfolded c] z Z6 n6 def' tail [unfolded c] cases' r' [unfolded c] count
  show ?thesis by blast
qed

text \<open>
  Witness: the tree 0(1) where node 1 has three owners (with a parent), and the root
  0 of the same tree (without one).  For node 1 the count written before the
  reattachment is 2.
\<close>

theorem failure_protocol_restores_retain_count_witness:
  "wellFormedPool (poolWith [plainNode 0 1 1, plainNode 1 0 3]) \<and>
   node (poolWith [plainNode 0 1 1, plainNode 1 0 3]) 1 = Some (Arena 1) \<and>
   nodeRetainCount (poolWith [plainNode 0 1 1, plainNode 1 0 3]) 1 = Inr 3 \<and>
   parentPosition (buffer (poolWith [plainNode 0 1 1, plainNode 1 0 3])) 1 = Some 0 \<and>
   retainCountIn
     (andThen (substituteSentinel (poolWith [plainNode 0 1 1, plainNode 1 0 3]) 1)
        (\<lambda>(s6, p, nn, idx, c). setReferenceCounter s6 nn (c - 1))) 1 = Inr 2 \<and>
   layoutOf (replaceWithAllocationFailure (poolWith [plainNode 0 1 1, plainNode 1 0 3]) 1)
     = Inr [(0, 1, 1), (1, 0, 3)] \<and>
   retainCountIn (replaceWithAllocationFailure (poolWith [plainNode 0 1 1, plainNode 1 0 3]) 1) 1
     = Inr 3 \<and>
   failureIn (replaceWithAllocationFailure (poolWith [plainNode 0 1 1, plainNode 1 0 3]) 1) 1
     = Inr True \<and>
   node (poolWith [plainNode 0 1 1, plainNode 1 0 3]) 0 = Some (Arena 0) \<and>
   nodeRetainCount (poolWith [plainNode 0 1 1, plainNode 1 0 3]) 0 = Inr 1 \<and>
   parentPosition (buffer (poolWith [plainNode 0 1 1, plainNode 1 0 3])) 0 = None \<and>
   retainCountIn (replaceWithAllocationFailure (poolWith [plainNode 0 1 1, plainNode 1 0 3]) 0) 0
     = Inr 1"
proof -
  let ?s = "poolWith [plainNode 0 1 1, plainNode 1 0 3]"
  have wf: "wellFormedPool ?s" by code_simp
  have n1: "node ?s 1 = Some (Arena 1)" by code_simp
  have n0: "node ?s 0 = Some (Arena 0)" by code_simp
  have c1: "nodeRetainCount ?s 1 = Inr 3" by code_simp
  have c0: "nodeRetainCount ?s 0 = Inr 1" by code_simp
  have p1: "parentPosition (buffer ?s) 1 = Some 0" by code_simp
  have p0: "parentPosition (buffer ?s) 0 = None" by code_simp
  have l: "layoutOf (replaceWithAllocationFailure ?s 1) = Inr [(0, 1, 1), (1, 0, 3)]"
    by code_simp
  have f: "failureIn (replaceWithAllocationFailure ?s 1) 1 = Inr True" by code_simp
  from failure_protocol_restores_retain_count [OF wf n1 c1] obtain s1 z s6 p nn idx where
    ok1: "replaceWithAllocationFailure ?s 1 = Inr s1" and k1: "nodeRetainCount s1 1 = Inr 3"
    and sub: "substituteSentinel ?s 1 = Inr (s6, p, nn, idx, 3)"
    and cs: "if parentPosition (buffer ?s) 1 \<noteq> None then
        \<exists>s7 s8 s9 s10.
          setReferenceCounter s6 nn (3 - 1) = Inr s7 \<and>
          recordOf s7 1 = Some (z\<lparr>nodeIdentifier := 1, referenceCounter := 3 - 1\<rparr>) \<and>
          fromNode s7 (Some nn) = Inr (s8, 1) \<and>
          addChildAtIndex s8 p 1 idx = Inr s9 \<and>
          recordOf s9 1 = Some (z\<lparr>nodeIdentifier := 1, referenceCounter := 3 + 1\<rparr>) \<and>
          destroy s9 1 = Inr s10 \<and>
          recordOf s10 1 = Some (z\<lparr>nodeIdentifier := 1, referenceCounter := 3\<rparr>) \<and>
          destroy s10 p = Inr s1
      else setReferenceCounter s6 nn 3 = Inr s1"
    by (elim exE conjE)
  from cs p1 obtain s7 where s7: "setReferenceCounter s6 nn (3 - 1) = Inr s7"
    and z7: "recordOf s7 1 = Some (z\<lparr>nodeIdentifier := 1, referenceCounter := 2\<rparr>)"
    by auto
  from recordOf_nodeAt [OF z7] have "nodeRetainCount s7 1 = Inr 2"
    by (auto simp: nodeRetainCount_def)
  with sub s7 have m: "retainCountIn
     (andThen (substituteSentinel ?s 1)
        (\<lambda>(s6, p, nn, idx, c). setReferenceCounter s6 nn (c - 1))) 1 = Inr 2"
    by (simp add: retainCountIn_def)
  from ok1 k1 have r1: "retainCountIn (replaceWithAllocationFailure ?s 1) 1 = Inr 3"
    by (simp add: retainCountIn_def)
  from failure_protocol_restores_retain_count [OF wf n0 c0] obtain s0 where
    ok0: "replaceWithAllocationFailure ?s 0 = Inr s0" and k0: "nodeRetainCount s0 0 = Inr 1"
    by blast
  from ok0 k0 have r0: "retainCountIn (replaceWithAllocationFailure ?s 0) 0 = Inr 1"
    by (simp add: retainCountIn_def)
  from wf n1 c1 p1 m l r1 f n0 c0 p0 r0 show ?thesis by simp
qed

end
